theory Spec2Isabelle
  imports Main "HOL-Library.Word" "HOL-Library.Sublist"
begin

unbundle bit_operations_syntax

section \<open>JavaScript values used by the codecs\<close>

text \<open>
  A Node.js \<open>Buffer\<close> is a sequence of bytes. JavaScript numbers that hold integers are
  modelled as \<open>int\<close>; the bitwise operators first convert their operands with ToInt32
  and give a signed 32-bit result, comparisons work on the number itself.
\<close>

type_synonym byte = "8 word"
type_synonym buffer = "byte list"

datatype js_error = TypeError | ReferenceError | RangeError | Error string

definition toInt32 :: "int \<Rightarrow> int" where
  "toInt32 x = signed_take_bit 31 x"

definition js_and :: "int \<Rightarrow> int \<Rightarrow> int" where
  "js_and a b = toInt32 a AND toInt32 b"

definition js_or :: "int \<Rightarrow> int \<Rightarrow> int" where
  "js_or a b = toInt32 a OR toInt32 b"

definition js_shl :: "int \<Rightarrow> nat \<Rightarrow> int" where
  "js_shl a n = toInt32 (push_bit n (toInt32 a))"

definition js_sar :: "int \<Rightarrow> nat \<Rightarrow> int" where
  "js_sar a n = drop_bit n (toInt32 a)"

definition js_not :: "int \<Rightarrow> int" where
  "js_not a = NOT (toInt32 a)"

text \<open>
  \<open>b[k]\<close> as an operand of a bitwise operator: a read past the end of a Buffer gives
  \<open>undefined\<close>, which ToInt32 turns into 0.
\<close>

definition byteAt :: "buffer \<Rightarrow> nat \<Rightarrow> int" where
  "byteAt b k = (if k < length b then uint (b ! k) else 0)"

text \<open>Storing a number into a Buffer keeps its low eight bits.\<close>

definition toByte :: "int \<Rightarrow> byte" where
  "toByte n = word_of_int n"

text \<open>An element of a Buffer as a byte; \<open>undefined\<close> past the end counts as 0 in the
  bitwise operators and when stored into another Buffer.\<close>

definition bufAt :: "buffer \<Rightarrow> nat \<Rightarrow> byte" where
  "bufAt b k = (if k < length b then b ! k else 0)"

text \<open>
  \<open>source.copy(target, targetStart, sourceStart, sourceEnd)\<close>: the new contents of
  \<open>target\<close> and the number of bytes copied. The copy is cut to what the source has and
  to the room the target has left.
\<close>

definition buffer_copy :: "buffer \<Rightarrow> buffer \<Rightarrow> nat \<Rightarrow> nat \<Rightarrow> nat \<Rightarrow> buffer \<times> nat" where
  "buffer_copy source target targetStart sourceStart sourceEnd =
     (let n = min (min sourceEnd (length source) - sourceStart) (length target - targetStart)
      in (take targetStart target @ take n (drop sourceStart source)
            @ drop (targetStart + n) target, n))"

text \<open>
  \<open>new Buffer(n)\<close>: \<open>n\<close> bytes, holding whatever the allocator hands out (zeros in
  later versions of Node). The first argument stands for that memory; past its end the
  bytes are 0.
\<close>

definition new_Buffer :: "buffer \<Rightarrow> nat \<Rightarrow> buffer" where
  "new_Buffer memory n = map (bufAt memory) [0..<n]"

section \<open>Varint codec (src/lib/voice.js)\<close>

text \<open>
  \<open>toVarint\<close> returns a bare Buffer on its early exit for the values -1 .. -4 and an
  object \<open>{value, length}\<close> on every other path.
\<close>

datatype varint = VBuffer buffer | VObject buffer nat

definition varint_object :: "int list \<Rightarrow> varint" where
  "varint_object arr = VObject (map toByte arr) (length arr)"

definition toVarint_unsigned :: "int list \<Rightarrow> int \<Rightarrow> js_error + varint" where
  "toVarint_unsigned arr i =
     (if i < 0x80 then Inr (varint_object (arr @ [i]))
      else if i < 0x4000 then
        Inr (varint_object (arr @ [js_or (js_sar i 8) 0x80, js_and i 0xFF]))
      else if i < 0x200000 then
        Inr (varint_object (arr @ [js_or (js_sar i 16) 0xC0, js_and (js_sar i 8) 0xFF,
                                  js_and i 0xFF]))
      else if i < 0x10000000 then
        Inr (varint_object (arr @ [js_or (js_sar i 24) 0xE0, js_and (js_sar i 16) 0xFF,
                                  js_and (js_sar i 8) 0xFF, js_and i 0xFF]))
      else if i < 0x100000000 then
        Inr (varint_object (arr @ [0xF0, js_and (js_sar i 24) 0xFF, js_and (js_sar i 16) 0xFF,
                                  js_and (js_sar i 8) 0xFF, js_and i 0xFF]))
      else Inl TypeError)"

definition toVarint :: "int \<Rightarrow> js_error + varint" where
  "toVarint i =
     (if i < 0 then
        (let j = js_not i in
         if j \<le> 0x3 then Inr (VBuffer [toByte (js_or 0xFC j)])
         else toVarint_unsigned [0xF8] j)
      else toVarint_unsigned [] i)"

text \<open>The bytes \<open>toVarint\<close> produces, and their number, whichever shape it returned.\<close>

fun varint_bytes :: "varint \<Rightarrow> buffer" where
  "varint_bytes (VBuffer b) = b"
| "varint_bytes (VObject v n) = v"

fun varint_length :: "varint \<Rightarrow> nat" where
  "varint_length (VBuffer b) = length b"
| "varint_length (VObject v n) = n"

text \<open>
  \<open>fromVarint\<close> returns \<open>null\<close> (\<open>None\<close>) or the pair of the value and the number of
  bytes used. The trailing bytes of a multi-byte form are read with \<open>b[k]\<close> and never
  checked against the length of the buffer. The last \<open>else\<close> stands for the source
  falling out of its chain of tests with \<open>i\<close> unset; lemma \<open>fromVarint_chain_total\<close>
  shows that no byte reaches it.
\<close>

fun fromVarint :: "buffer \<Rightarrow> (int \<times> nat) option" where
  "fromVarint [] = None"
| "fromVarint (v0 # rest) =
     (let b = v0 # rest; v = uint v0 in
      if js_and v 0x80 = 0x00 then Some (js_and v 0x7F, 1)
      else if js_and v 0xC0 = 0x80 then
        Some (js_or (js_shl (js_and v 0x3F) 8) (byteAt b 1), 2)
      else if js_and v 0xF0 = 0xF0 then
        (let p = js_and v 0xFC in
         if p = 0xF0 then
           Some (js_or (js_or (js_or (js_shl (byteAt b 1) 24) (js_shl (byteAt b 2) 16))
                              (js_shl (byteAt b 3) 8)) (byteAt b 4), 5)
         else if p = 0xF8 then
           (case fromVarint rest of
              None \<Rightarrow> None
            | Some (rv, rl) \<Rightarrow> Some (js_not rv, 1 + rl))
         else if p = 0xFC then Some (js_not (js_and v 0x03), 1)
         else None)
      else if js_and v 0xF0 = 0xE0 then
        Some (js_or (js_or (js_or (js_shl (js_and v 0x0F) 24) (js_shl (byteAt b 1) 16))
                           (js_shl (byteAt b 2) 8)) (byteAt b 3), 4)
      else if js_and v 0xE0 = 0xC0 then
        Some (js_or (js_or (js_shl (js_and v 0x1F) 16) (js_shl (byteAt b 1) 8)) (byteAt b 2), 3)
      else None)"

section \<open>Voice packets (src/lib/voice.js)\<close>

text \<open>
  The constructor argument of both streams is \<open>'server'\<close> or \<open>'client'\<close>: for the
  encoder the destination of the packets, for the decoder their origin. A position is
  three IEEE-754 single-precision numbers, kept as the 32-bit patterns that
  \<open>writeFloatBE\<close> and \<open>readFloatBE\<close> move to and from the wire.
\<close>

datatype endpoint = Server | Client

type_synonym position = "32 word \<times> 32 word \<times> 32 word"

record voice_data =
  vd_source :: "int option"
  vd_mode :: int
  vd_codec :: string
  vd_seqNum :: int
  vd_end :: bool
  vd_frames :: "buffer list"
  vd_position :: "position option"

datatype chunk_in = PingData int | VoiceData voice_data

text \<open>
  \<open>toVarint(x).value\<close>: the early exit of \<open>toVarint\<close> returns a Buffer, which has no
  \<open>value\<close> property, and the caller's \<open>.copy\<close> on \<open>undefined\<close> throws.
\<close>

definition toVarint_value :: "int \<Rightarrow> js_error + buffer" where
  "toVarint_value i =
     (case toVarint i of
        Inl e \<Rightarrow> Inl e
      | Inr (VBuffer b) \<Rightarrow> Inl TypeError
      | Inr (VObject v n) \<Rightarrow> Inr v)"

text \<open>
  The Buffer methods the encoder writes with. \<open>writeUInt8\<close> and \<open>writeFloatBE\<close> return
  the offset plus the number of bytes written, \<open>copy\<close> (here with its target and target
  offset only) the number of bytes copied. A write outside the Buffer throws, and so
  does \<open>writeUInt8\<close> of a value outside 0 .. 255. Each function gives the new contents
  of the Buffer and the number returned.
\<close>

definition writeUInt8 :: "buffer \<Rightarrow> int \<Rightarrow> nat \<Rightarrow> js_error + buffer \<times> nat" where
  "writeUInt8 buf n offset =
     (if 0 \<le> n \<and> n \<le> 255 \<and> offset + 1 \<le> length buf then
        Inr (buf[offset := toByte n], offset + 1)
      else Inl RangeError)"

definition float_bytes :: "32 word \<Rightarrow> buffer" where
  "float_bytes w = [ucast (drop_bit 24 w), ucast (drop_bit 16 w), ucast (drop_bit 8 w), ucast w]"

definition writeFloatBE :: "buffer \<Rightarrow> 32 word \<Rightarrow> nat \<Rightarrow> js_error + buffer \<times> nat" where
  "writeFloatBE buf w offset =
     (if offset + 4 \<le> length buf then
        Inr (fst (buffer_copy (float_bytes w) buf offset 0 4), offset + 4)
      else Inl RangeError)"

definition copy_to :: "buffer \<Rightarrow> buffer \<Rightarrow> nat \<Rightarrow> buffer \<times> nat" where
  "copy_to source target targetStart = buffer_copy source target targetStart 0 (length source)"

definition readFloatBE :: "buffer \<Rightarrow> nat \<Rightarrow> 32 word" where
  "readFloatBE b off =
     push_bit 24 (ucast (b ! off)) OR push_bit 16 (ucast (b ! (off + 1)))
       OR push_bit 8 (ucast (b ! (off + 2))) OR ucast (b ! (off + 3))"

subsection \<open>Encoder\<close>

definition opus_voiceData :: "voice_data \<Rightarrow> js_error + buffer" where
  "opus_voiceData chunk =
     (if length (vd_frames chunk) > 1 then
        Inl (Error ''Opus only supports a single frame per packet'')
      else
        (let endBit = (if vd_end chunk then 0x2000 else 0) in
         if length (vd_frames chunk) = 0 then toVarint_value endBit
         else
           (case toVarint_value (js_or (int (length (vd_frames chunk ! 0))) endBit) of
              Inl e \<Rightarrow> Inl e
            | Inr frameSize \<Rightarrow> Inr (frameSize @ vd_frames chunk ! 0))))"

text \<open>
  The loop over the frames of a CELT or Speex packet pushes a length byte with the
  continuation bit and then the frame; it stops at the first frame of more than 127
  bytes.
\<close>

fun celt_push_frames :: "buffer list \<Rightarrow> buffer list \<Rightarrow> js_error + buffer list" where
  "celt_push_frames [] voiceData = Inr voiceData"
| "celt_push_frames (frame # frames) voiceData =
     (if length frame > 127 then Inl (Error ''Frame size is greater than 127 bytes'')
      else celt_push_frames frames
             (voiceData @ [[toByte (js_or (int (length frame)) 0x80)], frame]))"

definition celt_voiceData :: "voice_data \<Rightarrow> js_error + buffer" where
  "celt_voiceData chunk =
     (if length (vd_frames chunk) = 0 \<and> \<not> vd_end chunk then
        Inl (Error ''No frames given but end bit is not set'')
      else
        (case celt_push_frames (vd_frames chunk) [] of
           Inl e \<Rightarrow> Inl e
         | Inr pushed \<Rightarrow>
             (let voiceData = (if vd_end chunk then pushed @ [[0], []] else pushed);
                  k = length voiceData - 2;
                  hdr = voiceData ! k;
                  voiceData = voiceData[k := hdr[0 := toByte (js_and (uint (hdr ! 0)) 0x7F)]]
              in Inr (concat voiceData))))"

definition celt_codecId :: "string \<Rightarrow> int option" where
  "celt_codecId c =
     (if c = ''CELT_Alpha'' then Some 0
      else if c = ''Speex'' then Some 2
      else if c = ''CELT_Beta'' then Some 3
      else None)"

text \<open>
  The three \<open>offset += buffer.writeFloatBE(v, offset)\<close> of the position: each adds the
  returned end offset, not the four bytes written, to \<open>offset\<close>.
\<close>

definition encode_position :: "buffer \<Rightarrow> nat \<Rightarrow> position option \<Rightarrow> js_error + buffer \<times> nat" where
  "encode_position buffer offset pos =
     (case pos of
        None \<Rightarrow> Inr (buffer, offset)
      | Some (x, y, z) \<Rightarrow>
          (case writeFloatBE buffer x offset of
             Inl e \<Rightarrow> Inl e
           | Inr (buffer1, r1) \<Rightarrow>
               (let offset1 = offset + r1 in
                case writeFloatBE buffer1 y offset1 of
                  Inl e \<Rightarrow> Inl e
                | Inr (buffer2, r2) \<Rightarrow>
                    (let offset2 = offset1 + r2 in
                     case writeFloatBE buffer2 z offset2 of
                       Inl e \<Rightarrow> Inl e
                     | Inr (buffer3, r3) \<Rightarrow> Inr (buffer3, offset2 + r3)))))"

text \<open>
  The part of the encoder after the voice data has been built: a Buffer with room for
  the header byte, two varints, the voice data and twelve bytes of position; then header
  byte, source (only towards a client), sequence number, voice data and position are
  written at \<open>offset\<close>, and the result is \<open>buffer.slice(0, offset)\<close>.
\<close>

definition encode_source :: "endpoint \<Rightarrow> voice_data \<Rightarrow> buffer \<Rightarrow> nat \<Rightarrow> js_error + buffer \<times> nat" where
  "encode_source dest chunk buffer offset =
     (if dest = Client then
        (case vd_source chunk of
           None \<Rightarrow> Inl TypeError
         | Some s \<Rightarrow>
             (case toVarint_value s of
                Inl e \<Rightarrow> Inl e
              | Inr v \<Rightarrow> Inr (fst (copy_to v buffer offset), offset + snd (copy_to v buffer offset))))
      else Inr (buffer, offset))"

definition encode_voice :: "buffer \<Rightarrow> endpoint \<Rightarrow> voice_data \<Rightarrow> int \<Rightarrow> buffer \<Rightarrow> js_error + buffer" where
  "encode_voice memory dest chunk codecId voiceData =
     (let buffer = new_Buffer memory (1 + 9 + 9 + length voiceData + 3 * 4) in
      case writeUInt8 buffer (js_or (js_shl codecId 5) (vd_mode chunk)) 0 of
        Inl e \<Rightarrow> Inl e
      | Inr (buffer1, r1) \<Rightarrow>
          (case encode_source dest chunk buffer1 (0 + r1) of
             Inl e \<Rightarrow> Inl e
           | Inr (buffer2, offset2) \<Rightarrow>
               (case toVarint_value (vd_seqNum chunk) of
                  Inl e \<Rightarrow> Inl e
                | Inr v \<Rightarrow>
                    (let buffer3 = fst (copy_to v buffer2 offset2);
                         offset3 = offset2 + snd (copy_to v buffer2 offset2);
                         buffer4 = fst (copy_to voiceData buffer3 offset3);
                         offset4 = offset3 + snd (copy_to voiceData buffer3 offset3)
                     in case encode_position buffer4 offset4 (vd_position chunk) of
                          Inl e \<Rightarrow> Inl e
                        | Inr (buffer5, offset5) \<Rightarrow> Inr (take offset5 buffer5)))))"

text \<open>
  \<open>Encoder.prototype._transform\<close>. The first argument is the memory that \<open>new Buffer\<close>
  hands out. An exception thrown inside is not caught there; it is the \<open>Inl\<close> result
  like an error passed to the callback.
\<close>

definition voice_Encoder_transform :: "buffer \<Rightarrow> endpoint \<Rightarrow> chunk_in \<Rightarrow> js_error + buffer" where
  "voice_Encoder_transform memory dest chunk =
     (case chunk of
        PingData timestamp \<Rightarrow>
          (let buffer = new_Buffer memory (1 + 9) in
           case writeUInt8 buffer 0x20 0 of
             Inl e \<Rightarrow> Inl e
           | Inr (buffer1, r1) \<Rightarrow>
               (case toVarint_value timestamp of
                  Inl e \<Rightarrow> Inl e
                | Inr v \<Rightarrow>
                    Inr (take (0 + r1 + snd (copy_to v buffer1 (0 + r1)))
                              (fst (copy_to v buffer1 (0 + r1))))))
      | VoiceData vd \<Rightarrow>
          (if vd_codec vd = ''Opus'' then
             (case opus_voiceData vd of
                Inl e \<Rightarrow> Inl e
              | Inr voiceData \<Rightarrow> encode_voice memory dest vd 4 voiceData)
           else
             (case celt_codecId (vd_codec vd) of
                Some codecId \<Rightarrow>
                  (case celt_voiceData vd of
                     Inl e \<Rightarrow> Inl e
                   | Inr voiceData \<Rightarrow> encode_voice memory dest vd codecId voiceData)
              | None \<Rightarrow> Inl TypeError)))"

subsection \<open>Decoder\<close>

text \<open>
  What one call of the decoder's \<open>_transform\<close> does: it passes a packet on (\<open>Ok\<close>), or
  calls \<open>reject(reason)\<close>, which emits a \<open>debug\<close> event with the reason and calls
  \<open>callback()\<close> with no data (\<open>Reject\<close>), or hands a caught exception to the
  callback, which makes it an error of the stream (\<open>Throw\<close>).
\<close>

record voice_packet =
  vp_target :: string
  vp_source :: "int option"
  vp_seqNum :: int
  vp_end :: bool
  vp_frames :: "buffer list"
  vp_codec :: string
  vp_position :: "position option"

datatype packet = PingPacket int | VoicePacket voice_packet

datatype 'a step = Ok 'a | Reject string | Throw js_error

definition target_name :: "int \<Rightarrow> string" where
  "target_name target =
     (if target = 0 then ''normal''
      else if target = 1 then ''shout''
      else if target = 2 then ''whisper''
      else ''loopback'')"

text \<open>The loop of the CELT/Speex branch, from the current \<open>offset\<close> and the frames
  collected so far; it gives the frames, the \<open>end\<close> flag and the offset behind them.\<close>

function celt_frames :: "buffer \<Rightarrow> nat \<Rightarrow> buffer list \<Rightarrow> (buffer list \<times> bool \<times> nat) step" where
  "celt_frames chunk offset frames =
     (if length chunk < offset + 1 then Reject ''missing frame header''
      else
        (let header = uint (chunk ! offset);
             offset1 = offset + 1
         in if header = 0 then Ok (frames, True, offset1)
            else
              (let more = (js_and header 0x80 > 0);
                   frameLength = nat (js_and header 0x7F)
               in if length chunk < offset1 + frameLength then Reject ''not enough voice data''
                  else
                    (let frames' = frames @ [take frameLength (drop offset1 chunk)];
                         offset2 = offset1 + frameLength
                     in if \<not> more then Ok (frames', False, offset2)
                        else celt_frames chunk offset2 frames'))))"
  by pat_completeness auto
termination
  by (relation "measure (\<lambda>(chunk, offset, frames). length chunk - offset)") auto

declare celt_frames.simps [simp del]

definition opus_frames :: "buffer \<Rightarrow> nat \<Rightarrow> (buffer list \<times> bool \<times> nat) step" where
  "opus_frames chunk offset =
     (case fromVarint (drop offset chunk) of
        None \<Rightarrow> Reject ''invalid voice length''
      | Some (value, len) \<Rightarrow>
          (let end = (js_and value 0x2000 > 0);
               size = js_and value 0x1fff;
               offset1 = offset + len
           in if int (length chunk) < int offset1 + size then Reject ''not enough voice data''
              else
                (let voice = take (nat size) (drop offset1 chunk)
                 in Ok (if length voice \<noteq> 0 then [voice] else [], end, offset1 + nat size))))"

text \<open>
  The test of the CELT/Speex branch reads \<open>codecId == 0 || codecIf == 2 || codecId == 3\<close>.
  The identifier \<open>codecIf\<close> is declared nowhere: evaluating it throws a ReferenceError,
  which happens whenever \<open>codecId\<close> is not 0 (1 and 4 are handled before).
\<close>

definition codecIf :: "js_error + int" where
  "codecIf = Inl ReferenceError"

definition is_celt_or_speex :: "int \<Rightarrow> js_error + bool" where
  "is_celt_or_speex codecId =
     (if codecId = 0 then Inr True
      else
        (case codecIf of
           Inl e \<Rightarrow> Inl e
         | Inr c \<Rightarrow> Inr (c = 2 \<or> codecId = 3)))"

definition celt_codec_name :: "int \<Rightarrow> string" where
  "celt_codec_name codecId =
     (if codecId = 0 then ''CELT_Alpha''
      else if codecId = 2 then ''Speex''
      else if codecId = 3 then ''CELT_Beta''
      else [])"

text \<open>\<open>codecId\<close> is a byte shifted right by five, so it prints as one digit.\<close>

definition decimal_digit :: "int \<Rightarrow> string" where
  "decimal_digit n = [char_of (48 + n)]"

definition decode_frames :: "int \<Rightarrow> buffer \<Rightarrow> nat \<Rightarrow> (string \<times> buffer list \<times> bool \<times> nat) step" where
  "decode_frames codecId chunk offset =
     (if codecId = 4 then
        (case opus_frames chunk offset of
           Ok (frames, end, offset') \<Rightarrow> Ok (''Opus'', frames, end, offset')
         | Reject r \<Rightarrow> Reject r
         | Throw e \<Rightarrow> Throw e)
      else
        (case is_celt_or_speex codecId of
           Inl e \<Rightarrow> Throw e
         | Inr True \<Rightarrow>
             (case celt_frames chunk offset [] of
                Ok (frames, end, offset') \<Rightarrow> Ok (celt_codec_name codecId, frames, end, offset')
              | Reject r \<Rightarrow> Reject r
              | Throw e \<Rightarrow> Throw e)
         | Inr False \<Rightarrow> Reject (''unknown codec '' @ decimal_digit codecId)))"

definition decode_source :: "endpoint \<Rightarrow> buffer \<Rightarrow> nat \<Rightarrow> (int option \<times> nat) step" where
  "decode_source orig chunk offset =
     (if orig = Server then
        (case fromVarint (drop offset chunk) of
           None \<Rightarrow> Reject ''invalid source''
         | Some (value, len) \<Rightarrow> Ok (Some value, offset + len))
      else Ok (None, offset))"

definition decode_position :: "buffer \<Rightarrow> nat \<Rightarrow> position option" where
  "decode_position chunk offset =
     (if length chunk > offset + 12 then
        Some (readFloatBE chunk offset, readFloatBE chunk (offset + 4),
              readFloatBE chunk (offset + 8))
      else None)"

definition voice_Decoder_transform :: "endpoint \<Rightarrow> buffer \<Rightarrow> packet step" where
  "voice_Decoder_transform orig chunk =
     (if length chunk = 0 then Reject ''empty''
      else
        (let codecId = js_sar (byteAt chunk 0) 5 in
         if codecId = 1 then
           (case fromVarint (drop 1 chunk) of
              None \<Rightarrow> Reject ''invalid timestamp''
            | Some (value, len) \<Rightarrow> Ok (PingPacket value))
         else
           (let target = js_and (byteAt chunk 0) 0x1f in
            case decode_source orig chunk 1 of
              Reject r \<Rightarrow> Reject r
            | Throw e \<Rightarrow> Throw e
            | Ok (source, offset) \<Rightarrow>
                (case fromVarint (drop offset chunk) of
                   None \<Rightarrow> Reject ''invalid sequence number''
                 | Some (seqNum, len) \<Rightarrow>
                     (case decode_frames codecId chunk (offset + len) of
                        Reject r \<Rightarrow> Reject r
                      | Throw e \<Rightarrow> Throw e
                      | Ok (codec, frames, end, offset') \<Rightarrow>
                          Ok (VoicePacket
                                \<lparr>vp_target = target_name target, vp_source = source,
                                 vp_seqNum = seqNum, vp_end = end, vp_frames = frames,
                                 vp_codec = codec,
                                 vp_position = decode_position chunk offset'\<rparr>))))))"

subsection \<open>Packets that survive the round trip\<close>

text \<open>
  The decoder for packets sent to \<open>dest\<close> is the one created with the other endpoint as
  origin. \<open>plain_voice_data\<close> collects the packets for which encoding and decoding are
  shown to be inverse: no position, codec Opus (no frame, or one non-empty frame of at
  most 8191 bytes) or CELT_Alpha (frames of at most 127 bytes, the last one non-empty
  unless the packet ends the transmission), mode below 32, sequence number and source
  below \<open>2^31\<close>. \<open>decoded_voice\<close> is what the decoder then returns.
\<close>

definition other_end :: "endpoint \<Rightarrow> endpoint" where
  "other_end e = (case e of Server \<Rightarrow> Client | Client \<Rightarrow> Server)"

definition int31 :: "int \<Rightarrow> bool" where
  "int31 i = (0 \<le> i \<and> i < 2147483648)"

definition plain_voice_data :: "endpoint \<Rightarrow> voice_data \<Rightarrow> bool" where
  "plain_voice_data dest v =
     (vd_position v = None \<and> 0 \<le> vd_mode v \<and> vd_mode v < 32 \<and> int31 (vd_seqNum v)
      \<and> (if dest = Client then
            (case vd_source v of None \<Rightarrow> False | Some s \<Rightarrow> int31 s)
          else True)
      \<and> (if vd_codec v = ''Opus'' then
            (case vd_frames v of
               [] \<Rightarrow> True
             | f # fs \<Rightarrow> fs = [] \<and> f \<noteq> [] \<and> length f \<le> 0x1FFF)
          else
            vd_codec v = ''CELT_Alpha'' \<and> list_all (\<lambda>f. length f \<le> 127) (vd_frames v)
            \<and> (if vd_end v then True
                 else vd_frames v \<noteq> [] \<and> last (vd_frames v) \<noteq> [])))"

definition decoded_voice :: "endpoint \<Rightarrow> voice_data \<Rightarrow> voice_packet" where
  "decoded_voice dest v =
     \<lparr>vp_target = target_name (vd_mode v),
      vp_source = (if dest = Client then vd_source v else None),
      vp_seqNum = vd_seqNum v, vp_end = vd_end v, vp_frames = vd_frames v,
      vp_codec = vd_codec v, vp_position = None\<rparr>"

text \<open>The bytes of a CELT frame with its continuation bit set.\<close>

definition celt_frame_bytes :: "buffer \<Rightarrow> buffer" where
  "celt_frame_bytes f = toByte (js_or (int (length f)) 0x80) # f"

section \<open>UDP crypto: OCB2 over AES-128 (src/unnamed/part_001, loaded as lib/udp-crypto.js)\<close>

abbreviation (input) BLOCK_SIZE :: nat where
  "BLOCK_SIZE \<equiv> 16"

subsection \<open>Block operations\<close>

text \<open>Each operation gives the sixteen bytes the source writes into its first argument.\<close>

definition XOR_block :: "buffer \<Rightarrow> buffer \<Rightarrow> buffer" where
  "XOR_block a b = map (\<lambda>i. bufAt a i XOR bufAt b i) [0..<BLOCK_SIZE]"

definition ZERO :: buffer where
  "ZERO = replicate BLOCK_SIZE 0"

definition S2 :: "buffer \<Rightarrow> buffer" where
  "S2 block =
     (let carry = drop_bit 7 (bufAt block 0) in
      map (\<lambda>i. push_bit 1 (bufAt block i) OR drop_bit 7 (bufAt block (i + 1)))
          [0..<BLOCK_SIZE - 1]
        @ [push_bit 1 (bufAt block (BLOCK_SIZE - 1)) XOR (carry * 0x87)])"

definition S3 :: "buffer \<Rightarrow> buffer" where
  "S3 block =
     (let carry = drop_bit 7 (bufAt block 0) in
      map (\<lambda>i. bufAt block i XOR (push_bit 1 (bufAt block i) OR drop_bit 7 (bufAt block (i + 1))))
          [0..<BLOCK_SIZE - 1]
        @ [bufAt block (BLOCK_SIZE - 1)
             XOR (push_bit 1 (bufAt block (BLOCK_SIZE - 1)) XOR (carry * 0x87))])"

subsection \<open>OCB2\<close>

text \<open>
  The AES-128-ECB primitive comes from Node's \<open>crypto\<close> module and is a parameter here:
  \<open>aesEncrypt\<close> and \<open>aesDecrypt\<close> map one block to one block. The source writes the
  output through slices of a preallocated Buffer; the functions below return the bytes
  written together with the tag. The part after the \<open>while\<close> loop handles the last
  one to sixteen bytes (or none, for an empty text).
\<close>

definition ocbEncrypt_final :: "(buffer \<Rightarrow> buffer) \<Rightarrow> buffer \<Rightarrow> buffer \<Rightarrow> buffer \<Rightarrow> buffer \<times> buffer" where
  "ocbEncrypt_final aesEncrypt plainText delta checksum =
     (let len = length plainText;
          delta1 = S2 delta;
          tmp1 = XOR_block (ZERO[BLOCK_SIZE - 1 := toByte (int len * 8)]) delta1;
          pad = aesEncrypt tmp1;
          tmp2 = fst (buffer_copy plainText tmp1 0 0 len);
          tmp3 = fst (buffer_copy pad tmp2 len len BLOCK_SIZE);
          checksum1 = XOR_block checksum tmp3;
          tmp4 = XOR_block pad tmp3;
          cipherText = take len tmp4;
          delta2 = S3 delta1;
          tag = aesEncrypt (XOR_block delta2 checksum1)
      in (cipherText, tag))"

function ocbEncrypt_blocks :: "(buffer \<Rightarrow> buffer) \<Rightarrow> buffer \<Rightarrow> buffer \<Rightarrow> buffer \<Rightarrow> buffer \<times> buffer" where
  "ocbEncrypt_blocks aesEncrypt plainText delta checksum =
     (if length plainText > BLOCK_SIZE then
        (let delta1 = S2 delta;
             tmp = aesEncrypt (XOR_block delta1 plainText);
             block = XOR_block delta1 tmp;
             checksum1 = XOR_block checksum plainText;
             rest = ocbEncrypt_blocks aesEncrypt (drop BLOCK_SIZE plainText) delta1 checksum1
         in (block @ fst rest, snd rest))
      else ocbEncrypt_final aesEncrypt plainText delta checksum)"
  by pat_completeness auto
termination
  by (relation "measure (\<lambda>(aesEncrypt, plainText, delta, checksum). length plainText)") auto

declare ocbEncrypt_blocks.simps [simp del]

definition ocbEncrypt :: "(buffer \<Rightarrow> buffer) \<Rightarrow> buffer \<Rightarrow> buffer \<Rightarrow> buffer \<times> buffer" where
  "ocbEncrypt aesEncrypt plainText nonce =
     ocbEncrypt_blocks aesEncrypt plainText (aesEncrypt nonce) ZERO"

definition ocbDecrypt_final :: "(buffer \<Rightarrow> buffer) \<Rightarrow> buffer \<Rightarrow> buffer \<Rightarrow> buffer \<Rightarrow> buffer \<times> buffer" where
  "ocbDecrypt_final aesEncrypt cipherText delta checksum =
     (let len = length cipherText;
          delta1 = S2 delta;
          tmp1 = XOR_block (ZERO[BLOCK_SIZE - 1 := toByte (int len * 8)]) delta1;
          pad = aesEncrypt tmp1;
          tmp2 = fst (buffer_copy cipherText ZERO 0 0 len);
          tmp3 = XOR_block tmp2 pad;
          checksum1 = XOR_block checksum tmp3;
          plainText = take len tmp3;
          delta2 = S3 delta1;
          tag = aesEncrypt (XOR_block delta2 checksum1)
      in (plainText, tag))"

function ocbDecrypt_blocks :: "(buffer \<Rightarrow> buffer) \<Rightarrow> (buffer \<Rightarrow> buffer) \<Rightarrow> buffer \<Rightarrow> buffer \<Rightarrow> buffer \<Rightarrow> buffer \<times> buffer" where
  "ocbDecrypt_blocks aesEncrypt aesDecrypt cipherText delta checksum =
     (if length cipherText > BLOCK_SIZE then
        (let delta1 = S2 delta;
             tmp = aesDecrypt (XOR_block delta1 cipherText);
             block = XOR_block delta1 tmp;
             checksum1 = XOR_block checksum block;
             rest = ocbDecrypt_blocks aesEncrypt aesDecrypt (drop BLOCK_SIZE cipherText)
                      delta1 checksum1
         in (block @ fst rest, snd rest))
      else ocbDecrypt_final aesEncrypt cipherText delta checksum)"
  by pat_completeness auto
termination
  by (relation "measure (\<lambda>(aesEncrypt, aesDecrypt, cipherText, delta, checksum).
                           length cipherText)") auto

declare ocbDecrypt_blocks.simps [simp del]

definition ocbDecrypt :: "(buffer \<Rightarrow> buffer) \<Rightarrow> (buffer \<Rightarrow> buffer) \<Rightarrow> buffer \<Rightarrow> buffer \<Rightarrow> buffer \<times> buffer" where
  "ocbDecrypt aesEncrypt aesDecrypt cipherText nonce =
     ocbDecrypt_blocks aesEncrypt aesDecrypt cipherText (aesEncrypt nonce) ZERO"

subsection \<open>UdpCrypt\<close>

text \<open>
  The record is the state of a \<open>UdpCrypt\<close> whose key and IVs have been installed. The
  setters accept sixteen bytes only, and \<open>generateKey\<close> cuts 48 random bytes into three
  blocks, so an installed buffer has \<open>BLOCK_SIZE\<close> bytes; \<open>ready\<close> records that.
  \<open>decryptHistory\<close> is a JavaScript array indexed by a byte, with \<open>undefined\<close> (\<open>None\<close>)
  where nothing has been stored.
\<close>

record stats =
  good :: int
  late :: int
  lost :: int

record UdpCrypt =
  key :: buffer
  decryptIV :: buffer
  encryptIV :: buffer
  decryptHistory :: "byte \<Rightarrow> byte option"
  stats :: stats

definition ready :: "UdpCrypt \<Rightarrow> bool" where
  "ready st = (length (key st) = BLOCK_SIZE \<and> length (decryptIV st) = BLOCK_SIZE
               \<and> length (encryptIV st) = BLOCK_SIZE)"

definition setKey :: "buffer \<Rightarrow> UdpCrypt \<Rightarrow> js_error + UdpCrypt" where
  "setKey k st =
     (if length k \<noteq> BLOCK_SIZE then Inl (Error ''key must be exactly 16 bytes'')
      else Inr (st\<lparr>key := k\<rparr>))"

definition setDecryptIV :: "buffer \<Rightarrow> UdpCrypt \<Rightarrow> js_error + UdpCrypt" where
  "setDecryptIV iv st =
     (if length iv \<noteq> BLOCK_SIZE then Inl (Error ''decryptIV must be exactly 16 bytes'')
      else Inr (st\<lparr>decryptIV := iv\<rparr>))"

definition setEncryptIV :: "buffer \<Rightarrow> UdpCrypt \<Rightarrow> js_error + UdpCrypt" where
  "setEncryptIV iv st =
     (if length iv \<noteq> BLOCK_SIZE then Inl (Error ''encryptIV must be exactly 16 bytes'')
      else Inr (st\<lparr>encryptIV := iv\<rparr>))"

text \<open>
  The counter loops. \<open>++iv[i]\<close> stores the sum modulo 256 and has the unwrapped sum as its
  value; \<open>iv[i]--\<close> stores the difference modulo 256 and has the old byte as its value.
\<close>

function increment_iv :: "nat \<Rightarrow> buffer \<Rightarrow> buffer" where
  "increment_iv i iv =
     (if i < BLOCK_SIZE then
        (let v = uint (bufAt iv i) + 1;
             iv1 = iv[i := toByte v]
         in if v = 256 then increment_iv (i + 1) (iv1[i := 0]) else iv1)
      else iv)"
  by pat_completeness auto
termination
  by (relation "measure (\<lambda>(i, iv). BLOCK_SIZE - i)") auto

declare increment_iv.simps [simp del]

text \<open>The carry loop of \<open>decrypt\<close> increments \<open>_decryptIV[i]\<close> and, on a carry, zeroes
  \<open>_encryptIV[i]\<close>. The pair is \<open>(_decryptIV, _encryptIV)\<close>.\<close>

function decrypt_carry :: "nat \<Rightarrow> buffer \<Rightarrow> buffer \<Rightarrow> buffer \<times> buffer" where
  "decrypt_carry i dIV eIV =
     (if i < BLOCK_SIZE then
        (let v = uint (bufAt dIV i) + 1;
             dIV1 = dIV[i := toByte v]
         in if v = 256 then decrypt_carry (i + 1) dIV1 (eIV[i := 0]) else (dIV1, eIV))
      else (dIV, eIV))"
  by pat_completeness auto
termination
  by (relation "measure (\<lambda>(i, dIV, eIV). BLOCK_SIZE - i)") auto

declare decrypt_carry.simps [simp del]

function decrypt_borrow :: "nat \<Rightarrow> buffer \<Rightarrow> buffer" where
  "decrypt_borrow i iv =
     (if i < BLOCK_SIZE then
        (let old = uint (bufAt iv i);
             iv1 = iv[i := toByte (old - 1)]
         in if old = - 1 then decrypt_borrow (i + 1) (iv1[i := 255]) else iv1)
      else iv)"
  by pat_completeness auto
termination
  by (relation "measure (\<lambda>(i, iv). BLOCK_SIZE - i)") auto

declare decrypt_borrow.simps [simp del]

definition encrypt :: "(buffer \<Rightarrow> buffer \<Rightarrow> buffer) \<Rightarrow> UdpCrypt \<Rightarrow> buffer \<Rightarrow> UdpCrypt \<times> buffer" where
  "encrypt aes st plainText =
     (let iv = increment_iv 0 (encryptIV st);
          (body, tag) = ocbEncrypt (aes (key st)) plainText iv
      in (st\<lparr>encryptIV := iv\<rparr>, [bufAt iv 0, bufAt tag 0, bufAt tag 1, bufAt tag 2] @ body))"

text \<open>
  The first half of \<open>decrypt\<close>: from the nonce byte of the packet it works out the nonce
  to decrypt with, in place in \<open>_decryptIV\<close>. \<open>Null\<close> is a \<open>return null\<close> with the
  state it leaves behind; \<open>Continue\<close> carries the state, \<open>restore\<close>, \<open>late\<close> and \<open>lost\<close>.
\<close>

datatype sync = Null UdpCrypt | Continue UdpCrypt bool int int

definition decrypt_sync :: "UdpCrypt \<Rightarrow> int \<Rightarrow> sync" where
  "decrypt_sync st ivbyte =
     (let saveiv = decryptIV st;
          iv0 = uint (bufAt (decryptIV st) 0);
          stored = (decryptIV st)[0 := toByte ivbyte]
      in
      if js_and (iv0 + 1) 0xFF = ivbyte then
        (if ivbyte > iv0 then Continue (st\<lparr>decryptIV := stored\<rparr>) False 0 0
         else if ivbyte < iv0 then
           (let (dIV, eIV) = decrypt_carry 1 stored (encryptIV st)
            in Continue (st\<lparr>decryptIV := dIV, encryptIV := eIV\<rparr>) False 0 0)
         else Null st)
      else
        (let diff0 = ivbyte - iv0;
             diff = (if diff0 > 128 then diff0 - 256
                     else if diff0 < - 128 then diff0 + 256 else diff0);
             r = (if ivbyte < iv0 \<and> diff > - 30 \<and> diff < 0 then
                    Continue (st\<lparr>decryptIV := stored\<rparr>) True 1 (- 1)
                  else if ivbyte > iv0 \<and> diff > - 30 \<and> diff < 0 then
                    Continue (st\<lparr>decryptIV := decrypt_borrow 0 stored\<rparr>) True 1 (- 1)
                  else if ivbyte > iv0 \<and> diff > 0 then
                    Continue (st\<lparr>decryptIV := stored\<rparr>) False 0 (ivbyte - iv0 - 1)
                  else if ivbyte < iv0 \<and> diff > 0 then
                    (let (dIV, eIV) = decrypt_carry 0 stored (encryptIV st)
                     in Continue (st\<lparr>decryptIV := dIV, encryptIV := eIV\<rparr>) False 0
                          (256 - iv0 + ivbyte - 1))
                  else Null st)
         in case r of
              Null s \<Rightarrow> Null s
            | Continue s restore late' lost' \<Rightarrow>
                if decryptHistory s (bufAt (decryptIV s) 0) = Some (bufAt (decryptIV s) 1)
                then Null (s\<lparr>decryptIV := saveiv\<rparr>)
                else Continue s restore late' lost'))"

text \<open>\<open>decrypt\<close> returns the plain text or \<open>null\<close> (\<open>None\<close>), and leaves a new state.\<close>

definition decrypt :: "(buffer \<Rightarrow> buffer \<Rightarrow> buffer) \<Rightarrow> (buffer \<Rightarrow> buffer \<Rightarrow> buffer) \<Rightarrow> UdpCrypt \<Rightarrow> buffer \<Rightarrow> UdpCrypt \<times> buffer option" where
  "decrypt aes aesInverse st cipherText =
     (if length cipherText < 4 then (st, None)
      else
        (let saveiv = decryptIV st;
             ivbyte = uint (bufAt cipherText 0)
         in case decrypt_sync st ivbyte of
              Null s \<Rightarrow> (s, None)
            | Continue s restore late' lost' \<Rightarrow>
                (let (plainText, tag) =
                       ocbDecrypt (aes (key s)) (aesInverse (key s)) (drop 4 cipherText)
                         (decryptIV s)
                 in if take 3 tag \<noteq> take 3 (drop 1 cipherText) then
                      (s\<lparr>decryptIV := saveiv\<rparr>, None)
                    else
                      (let s1 = s\<lparr>decryptHistory := (decryptHistory s)
                                    (bufAt (decryptIV s) 0 := Some (bufAt (decryptIV s) 1))\<rparr>;
                           s2 = (if restore then s1\<lparr>decryptIV := saveiv\<rparr> else s1);
                           s3 = s2\<lparr>stats := \<lparr>good = good (stats s2) + 1,
                                                late = late (stats s2) + late',
                                                lost = lost (stats s2) + lost'\<rparr>\<rparr>
                       in (s3, Some plainText)))))"

subsection \<open>Concrete data for the examples\<close>

text \<open>
  A stand-in for the block cipher where an example needs one: XOR with the key, which is
  its own inverse on blocks. The sender is about to wrap the low byte of its nonce.
\<close>

definition xor_cipher :: "buffer \<Rightarrow> buffer \<Rightarrow> buffer" where
  "xor_cipher k b = XOR_block b k"

definition example_sender :: UdpCrypt where
  "example_sender =
     \<lparr>key = [7, 7, 7, 7, 7, 7, 7, 7, 7, 7, 7, 7, 7, 7, 7, 7],
      decryptIV = [0, 0, 0, 0, 0, 0, 0, 0, 0, 0, 0, 0, 0, 0, 0, 0],
      encryptIV = [0xFF, 0xFF, 3, 0, 0, 0, 0, 0, 0, 0, 0, 0, 0, 0, 0, 0],
      decryptHistory = (\<lambda>b. None),
      stats = \<lparr>good = 0, late = 0, lost = 0\<rparr>\<rparr>"

definition example_receiver :: UdpCrypt where
  "example_receiver =
     \<lparr>key = [7, 7, 7, 7, 7, 7, 7, 7, 7, 7, 7, 7, 7, 7, 7, 7],
      decryptIV = [0xFF, 0xFF, 3, 0, 0, 0, 0, 0, 0, 0, 0, 0, 0, 0, 0, 0],
      encryptIV = [9, 9, 9, 9, 9, 9, 9, 9, 9, 9, 9, 9, 9, 9, 9, 9],
      decryptHistory = (\<lambda>b. None),
      stats = \<lparr>good = 0, late = 0, lost = 0\<rparr>\<rparr>"

section \<open>Control messages (src/lib/data.js)\<close>

definition message_names :: "string list" where
  "message_names =
     [''Version'', ''UDPTunnel'', ''Authenticate'', ''Ping'', ''Reject'', ''ServerSync'',
      ''ChannelRemove'', ''ChannelState'', ''UserRemove'', ''UserState'', ''BanList'',
      ''TextMessage'', ''PermissionDenied'', ''ACL'', ''QueryUsers'', ''CryptSetup'',
      ''ContextActionModify'', ''ContextAction'', ''UserList'', ''VoiceTarget'',
      ''PermissionQuery'', ''CodecVersion'', ''UserStats'', ''RequestBlob'', ''ServerConfig'',
      ''SuggestConfig'']"

definition nameById :: "nat \<Rightarrow> string option" where
  "nameById n = (if n < length message_names then Some (message_names ! n) else None)"

fun index_of :: "string \<Rightarrow> string list \<Rightarrow> nat \<Rightarrow> nat option" where
  "index_of name [] n = None"
| "index_of name (x # xs) n = (if x = name then Some n else index_of name xs (Suc n))"

definition idByName :: "string \<Rightarrow> nat option" where
  "idByName name = index_of name message_names 0"

text \<open>
  The payload of a message is a Buffer for \<open>UDPTunnel\<close> and a protobuf message object
  otherwise. The protobuf schema (Mumble.proto through protobufjs) is outside the
  repository's code: its two directions are parameters that give \<open>None\<close> where the
  library throws; the encoding direction is handed the payload as it came.
\<close>

datatype 'p payload = Bytes buffer | Object 'p

record 'p message =
  msg_name :: string
  msg_payload :: "'p payload"

definition writeUInt16BE :: "nat \<Rightarrow> buffer" where
  "writeUInt16BE n = [of_nat (n div 256), of_nat n]"

definition writeUInt32BE :: "nat \<Rightarrow> buffer" where
  "writeUInt32BE n = [of_nat (n div 16777216), of_nat (n div 65536), of_nat (n div 256), of_nat n]"

definition readUInt16BE :: "buffer \<Rightarrow> nat \<Rightarrow> nat" where
  "readUInt16BE b off = unat (bufAt b off) * 256 + unat (bufAt b (off + 1))"

definition readUInt32BE :: "buffer \<Rightarrow> nat \<Rightarrow> nat" where
  "readUInt32BE b off =
     unat (bufAt b off) * 16777216 + unat (bufAt b (off + 1)) * 65536
       + unat (bufAt b (off + 2)) * 256 + unat (bufAt b (off + 3))"

text \<open>A frame on the wire, as the encoder lays it out: type, length, payload bytes.\<close>

definition frame_bytes :: "nat \<Rightarrow> buffer \<Rightarrow> buffer" where
  "frame_bytes type data = writeUInt16BE type @ writeUInt32BE (length data) @ data"

definition data_encode :: "(string \<Rightarrow> 'p payload \<Rightarrow> buffer option) \<Rightarrow> string \<Rightarrow> 'p payload \<Rightarrow> js_error + buffer" where
  "data_encode schema_encode name payload =
     (case schema_encode name payload of
        None \<Rightarrow> Inl (Error ''encode'')
      | Some encoded \<Rightarrow> Inr encoded)"

text \<open>
  \<open>Encoder.prototype._transform\<close>: the payload of \<open>UDPTunnel\<close> is written as it is, any
  other payload is what \<open>encode\<close> makes of it; an exception of \<open>encode\<close> goes to the
  callback. Writing the header throws for a name without an id, for a payload of
  \<open>UDPTunnel\<close> that is no Buffer, and for a length of \<open>2^32\<close> or more.
\<close>

definition data_Encoder_transform :: "(string \<Rightarrow> 'p payload \<Rightarrow> buffer option) \<Rightarrow> 'p message \<Rightarrow> js_error + buffer" where
  "data_Encoder_transform schema_encode chunk =
     (case (if msg_name chunk = ''UDPTunnel'' then
              (case msg_payload chunk of
                 Bytes b \<Rightarrow> Inr b
               | Object p \<Rightarrow> Inl TypeError)
            else data_encode schema_encode (msg_name chunk) (msg_payload chunk)) of
        Inl e \<Rightarrow> Inl e
      | Inr data \<Rightarrow>
          (case idByName (msg_name chunk) of
             None \<Rightarrow> Inl TypeError
           | Some n \<Rightarrow>
               if length data < 4294967296 then Inr (frame_bytes n data) else Inl RangeError))"

text \<open>
  The decoder keeps a Buffer \<open>_buffer\<close> and the number \<open>_bufferSize\<close> of bytes of it that
  are in use. A fresh Buffer has arbitrary contents; the one allocated when the old one
  is too small is written in full before it is read, and is zero-filled here.
\<close>

record Decoder =
  dec_buffer :: buffer
  dec_bufferSize :: nat

definition Decoder_new :: "buffer \<Rightarrow> Decoder" where
  "Decoder_new memory = \<lparr>dec_buffer = memory, dec_bufferSize = 0\<rparr>"

definition Decoder_append :: "Decoder \<Rightarrow> buffer \<Rightarrow> Decoder" where
  "Decoder_append st chunk =
     (let buf = (if length (dec_buffer st) - dec_bufferSize st < length chunk then
                   fst (buffer_copy (dec_buffer st)
                          (replicate (dec_bufferSize st + length chunk) 0) 0 0
                          (dec_bufferSize st))
                 else dec_buffer st);
          copied = buffer_copy chunk buf (dec_bufferSize st) 0 (length chunk)
      in \<lparr>dec_buffer = fst copied, dec_bufferSize = dec_bufferSize st + snd copied\<rparr>)"

text \<open>Decoding the payload of one frame: \<open>UDPTunnel\<close> is copied, every other type goes
  through \<open>decode(type, data)\<close>, which throws for a type without a name.\<close>

definition data_decode :: "(string \<Rightarrow> buffer \<Rightarrow> 'p option) \<Rightarrow> nat \<Rightarrow> buffer \<Rightarrow> js_error + 'p" where
  "data_decode schema_decode typeId payload =
     (case nameById typeId of
        None \<Rightarrow> Inl TypeError
      | Some name \<Rightarrow>
          (case schema_decode name payload of
             None \<Rightarrow> Inl (Error ''decode'')
           | Some m \<Rightarrow> Inr m))"

definition decode_message :: "(string \<Rightarrow> buffer \<Rightarrow> 'p option) \<Rightarrow> nat \<Rightarrow> buffer \<Rightarrow> js_error + 'p message" where
  "decode_message schema_decode type data =
     (if nameById type = Some ''UDPTunnel'' then
        Inr \<lparr>msg_name = ''UDPTunnel'', msg_payload = Bytes data\<rparr>
      else
        (case data_decode schema_decode type data of
           Inl e \<Rightarrow> Inl e
         | Inr m \<Rightarrow>
             (case nameById type of
                None \<Rightarrow> Inl TypeError
              | Some typeName \<Rightarrow> Inr \<lparr>msg_name = typeName, msg_payload = Object m\<rparr>)))"

text \<open>
  The \<open>while\<close> loop of \<open>_transform\<close>: the state it leaves, the messages pushed, and the
  error handed to the callback, if any.
\<close>

function Decoder_drain :: "(string \<Rightarrow> buffer \<Rightarrow> 'p option) \<Rightarrow> Decoder \<Rightarrow> Decoder \<times> 'p message list \<times> js_error option" where
  "Decoder_drain schema_decode st =
     (if dec_bufferSize st \<ge> 6 then
        (let type = readUInt16BE (dec_buffer st) 0;
             size = readUInt32BE (dec_buffer st) 2
         in if dec_bufferSize st < 6 + size then (st, [], None)
            else
              (let data = take size (drop 6 (dec_buffer st)) in
               case decode_message schema_decode type data of
                 Inl e \<Rightarrow> (st, [], Some e)
               | Inr m \<Rightarrow>
                   (let st1 = \<lparr>dec_buffer = fst (buffer_copy (dec_buffer st) (dec_buffer st) 0
                                                   (6 + size) (dec_bufferSize st)),
                               dec_bufferSize = dec_bufferSize st - (6 + size)\<rparr>;
                        rest = Decoder_drain schema_decode st1
                    in (fst rest, m # fst (snd rest), snd (snd rest)))))
      else (st, [], None))"
  by pat_completeness auto
termination
  by (relation "measure (\<lambda>(schema_decode, st). dec_bufferSize st)") auto

declare Decoder_drain.simps [simp del]

definition data_Decoder_transform :: "(string \<Rightarrow> buffer \<Rightarrow> 'p option) \<Rightarrow> Decoder \<Rightarrow> buffer \<Rightarrow> Decoder \<times> 'p message list \<times> js_error option" where
  "data_Decoder_transform schema_decode st chunk =
     Decoder_drain schema_decode (Decoder_append st chunk)"

text \<open>Writing a sequence of chunks into the decoder, up to the first error.\<close>

fun Decoder_write_all :: "(string \<Rightarrow> buffer \<Rightarrow> 'p option) \<Rightarrow> Decoder \<Rightarrow> buffer list \<Rightarrow> Decoder \<times> 'p message list \<times> js_error option" where
  "Decoder_write_all schema_decode st [] = (st, [], None)"
| "Decoder_write_all schema_decode st (chunk # chunks) =
     (case data_Decoder_transform schema_decode st chunk of
        (st1, ms, Some e) \<Rightarrow> (st1, ms, Some e)
      | (st1, ms, None) \<Rightarrow>
          (case Decoder_write_all schema_decode st1 chunks of
             (st2, ms', e) \<Rightarrow> (st2, ms @ ms', e)))"

text \<open>
  For the proofs: the bytes in use, the invariant that they fit in the Buffer, and the
  loop of \<open>_transform\<close> read as a function on the bytes in use alone (what is left, the
  messages, the error).
\<close>

definition pending :: "Decoder \<Rightarrow> buffer" where
  "pending st = take (dec_bufferSize st) (dec_buffer st)"

definition Decoder_inv :: "Decoder \<Rightarrow> bool" where
  "Decoder_inv st = (dec_bufferSize st \<le> length (dec_buffer st))"

function stream_frames :: "(string \<Rightarrow> buffer \<Rightarrow> 'p option) \<Rightarrow> buffer \<Rightarrow> buffer \<times> 'p message list \<times> js_error option" where
  "stream_frames schema_decode b =
     (if length b \<ge> 6 then
        (let type = readUInt16BE b 0;
             size = readUInt32BE b 2
         in if length b < 6 + size then (b, [], None)
            else
              (case decode_message schema_decode type (take size (drop 6 b)) of
                 Inl e \<Rightarrow> (b, [], Some e)
               | Inr m \<Rightarrow>
                   (let rest = stream_frames schema_decode (drop (6 + size) b)
                    in (fst rest, m # fst (snd rest), snd (snd rest)))))
      else (b, [], None))"
  by pat_completeness auto
termination
  by (relation "measure (\<lambda>(schema_decode, b). length b)") auto

declare stream_frames.simps [simp del]

text \<open>A stand-in for the protobuf schema where an example needs one: every message
  object is its own encoding.\<close>

definition example_schema :: "string \<Rightarrow> buffer \<Rightarrow> buffer option" where
  "example_schema name b = Some b"

section \<open>Facts about the JavaScript operators\<close>

lemmas js_ops = toInt32_def js_and_def js_or_def js_shl_def js_sar_def js_not_def
  byteAt_def toByte_def

lemma toInt32_uint: "toInt32 (uint (v::byte)) = uint v"
proof -
  have "uint v < 256" using uint_bounded[of v] by simp
  then have b: "uint v < 2 ^ 31" by (rule less_trans) simp
  have "0 \<le> uint v" by simp
  then have a: "- (2 ^ 31) \<le> uint v" by (rule order_trans[rotated]) simp
  show ?thesis unfolding toInt32_def
    using a b by (rule signed_take_bit_int_eq_self)
qed

lemma js_and_uint: "js_and (uint (v::byte)) (uint (m::byte)) = uint (v AND m)"
  by (simp add: js_and_def toInt32_uint uint_and)

text \<open>A property of every byte follows from its 256 instances.\<close>

lemma byte_cases:
  assumes "list_all (\<lambda>n. P (word_of_nat n :: byte)) [0..<256]"
  shows "P (v :: byte)"
proof -
  have "unat v < 256" using unsigned_less[of v, where ?'a = nat] by simp
  then have "unat v \<in> set [0..<256]" by simp
  with assms have "P (word_of_nat (unat v))" unfolding list_all_iff by (rule bspec)
  then show ?thesis by simp
qed

text \<open>Reading a Buffer by index.\<close>

lemma bufAt_append_left: "i < length xs \<Longrightarrow> bufAt (xs @ ys) i = bufAt xs i"
  by (simp add: bufAt_def nth_append)

lemma bufAt_take: "i < n \<Longrightarrow> bufAt (take n xs) i = bufAt xs i"
  by (simp add: bufAt_def)

lemma bufAt_Cons_0 [simp]: "bufAt (x # xs) 0 = x"
  by (simp add: bufAt_def)

lemma bufAt_Cons_Suc [simp]: "bufAt (x # xs) (Suc n) = bufAt xs n"
  by (simp add: bufAt_def)

section \<open>Varint codec\<close>

text \<open>The chain of prefix tests in \<open>fromVarint\<close> covers every first byte, so the
  fall-through with an unset result is never taken.\<close>

lemma fromVarint_chain_total:
  "js_and (uint (v::byte)) 0x80 = 0x00 \<or> js_and (uint v) 0xC0 = 0x80
     \<or> js_and (uint v) 0xF0 = 0xF0 \<or> js_and (uint v) 0xF0 = 0xE0
     \<or> js_and (uint v) 0xE0 = 0xC0"
proof -
  have "v AND 0x80 = 0 \<or> v AND 0xC0 = 0x80 \<or> v AND 0xF0 = 0xF0 \<or> v AND 0xF0 = 0xE0
          \<or> v AND 0xE0 = 0xC0"
    by (rule byte_cases) code_simp
  then show ?thesis
    using js_and_uint[of v "0x80"] js_and_uint[of v "0xC0"] js_and_uint[of v "0xF0"]
      js_and_uint[of v "0xE0"]
    by auto
qed

subsection \<open>The round trip on signed 32-bit values\<close>

lemma toInt32_id:
  assumes "- 2147483648 \<le> x" "x < 2147483648"
  shows "toInt32 x = x"
proof -
  have "- (2 ^ 31) \<le> x" "x < 2 ^ 31" using assms by simp_all
  then show ?thesis unfolding toInt32_def by (rule signed_take_bit_int_eq_self)
qed

lemma js_sar_div:
  assumes "0 \<le> x" "x < 2147483648"
  shows "js_sar x n = x div 2 ^ n"
  using assms by (simp add: js_sar_def toInt32_id drop_bit_eq_div)

lemma js_or_add:
  assumes "0 \<le> a" "0 \<le> lo" "lo < 2 ^ k" "a * 2 ^ k + lo < 2147483648"
  shows "js_or (a * 2 ^ k) lo = a * 2 ^ k + lo"
proof -
  have nn: "0 \<le> a * 2 ^ k" using assms(1) by simp
  have hi: "toInt32 (a * 2 ^ k) = a * 2 ^ k"
    using assms(2,4) nn by (intro toInt32_id) linarith+
  have lo: "toInt32 lo = lo" using assms(2,4) nn by (intro toInt32_id) linarith+
  have t: "take_bit k lo = lo" using assms(2,3) by (simp add: take_bit_int_eq_self)
  have "a * 2 ^ k OR lo = concat_bit k lo a"
    by (simp add: concat_bit_def t push_bit_eq_mult or.commute)
  also have "\<dots> = lo + a * 2 ^ k" by (simp add: concat_bit_eq t push_bit_eq_mult)
  finally show ?thesis by (simp add: js_or_def hi lo)
qed

lemma js_shl_mult:
  assumes "0 \<le> a" "a * 2 ^ k < 2147483648"
  shows "js_shl a k = a * 2 ^ k"
proof -
  have nn: "0 \<le> a * 2 ^ k" using assms(1) by simp
  have le: "a \<le> a * 2 ^ k" using assms(1) by (simp add: mult_le_cancel_left1)
  have "toInt32 a = a" using assms le by (intro toInt32_id) linarith+
  moreover have "toInt32 (a * 2 ^ k) = a * 2 ^ k"
    using assms(2) nn by (intro toInt32_id) linarith+
  ultimately show ?thesis by (simp add: js_shl_def push_bit_eq_mult)
qed

lemma js_and_255: 
  assumes "0 \<le> x" "x < 2147483648" shows "js_and x 0xFF = x mod 256"
proof -
  have t: "toInt32 x = x" using assms by (intro toInt32_id) auto
  have "(255::int) = mask 8" by (simp add: mask_eq_exp_minus_1)
  then have "x AND 255 = take_bit 8 x" by (simp add: take_bit_eq_mask)
  moreover have "toInt32 255 = 255" by (simp add: toInt32_def)
  ultimately show ?thesis by (simp add: js_and_def t take_bit_eq_mod)
qed

lemma uint_toByte:
  assumes "0 \<le> x" "x < 256"
  shows "uint (toByte x) = x"
  unfolding toByte_def uint_word_of_int using assms by simp

lemma js_not_not:
  assumes "- 2147483648 \<le> x" "x < 2147483648"
  shows "js_not x = - x - 1" "js_not (js_not x) = x"
proof -
  show a: "js_not x = - x - 1" using assms by (simp add: js_not_def toInt32_id not_int_def)
  have "toInt32 (- x - 1) = - x - 1" using assms by (intro toInt32_id) auto
  then show "js_not (js_not x) = x" by (simp add: a) (simp add: js_not_def not_int_def)
qed

text \<open>What the prefix tests of \<open>fromVarint\<close> give on the first byte of each form; each
  fact is checked on all 256 bytes.\<close>

lemma first_byte_1:
  "uint (v::byte) < 128 \<longrightarrow> js_and (uint v) 0x80 = 0 \<and> js_and (uint v) 0x7F = uint v"
  by (rule byte_cases) code_simp

lemma first_byte_2:
  "uint (v::byte) < 64 \<longrightarrow>
     js_or (uint v) 0x80 = uint v + 128
     \<and> js_and (uint v + 128) 0x80 \<noteq> 0 \<and> js_and (uint v + 128) 0xC0 = 0x80
     \<and> js_and (uint v + 128) 0x3F = uint v"
  by (rule byte_cases) code_simp

lemma first_byte_3:
  "uint (v::byte) < 32 \<longrightarrow>
     js_or (uint v) 0xC0 = uint v + 192
     \<and> js_and (uint v + 192) 0x80 \<noteq> 0 \<and> js_and (uint v + 192) 0xC0 \<noteq> 0x80
     \<and> js_and (uint v + 192) 0xF0 \<noteq> 0xF0 \<and> js_and (uint v + 192) 0xF0 \<noteq> 0xE0
     \<and> js_and (uint v + 192) 0xE0 = 0xC0
     \<and> js_and (uint v + 192) 0x1F = uint v"
  by (rule byte_cases) code_simp

lemma first_byte_4:
  "uint (v::byte) < 16 \<longrightarrow>
     js_or (uint v) 0xE0 = uint v + 224
     \<and> js_and (uint v + 224) 0x80 \<noteq> 0 \<and> js_and (uint v + 224) 0xC0 \<noteq> 0x80
     \<and> js_and (uint v + 224) 0xF0 \<noteq> 0xF0 \<and> js_and (uint v + 224) 0xF0 = 0xE0
     \<and> js_and (uint v + 224) 0x0F = uint v"
  by (rule byte_cases) code_simp


lemma int_split:
  fixes j :: int
  assumes "0 \<le> j"
  shows "j div 256 * 256 + j mod 256 = j"
    and "j div 65536 * 65536 + j div 256 mod 256 * 256 + j mod 256 = j"
    and "j div 16777216 * 16777216 + j div 65536 mod 256 * 65536
           + j div 256 mod 256 * 256 + j mod 256 = j"
proof -
  define a where "a = j div 256"
  define b where "b = a div 256"
  have b2: "j div 65536 = b" unfolding b_def a_def by (simp add: zdiv_zmult2_eq[symmetric])
  have c: "j div 16777216 = b div 256" unfolding b_def a_def
    by (simp add: zdiv_zmult2_eq[symmetric])
  have 1: "j = a * 256 + j mod 256" by (simp add: a_def)
  have 2: "a = b * 256 + a mod 256" by (simp add: b_def)
  have 3: "b = b div 256 * 256 + b mod 256" by simp
  show "j div 256 * 256 + j mod 256 = j" by simp
  show "j div 65536 * 65536 + j div 256 mod 256 * 256 + j mod 256 = j"
    unfolding b2 a_def[symmetric] using 1 2 by linarith
  show "j div 16777216 * 16777216 + j div 65536 mod 256 * 65536
           + j div 256 mod 256 * 256 + j mod 256 = j"
    unfolding b2 c a_def[symmetric] using 1 2 3 by linarith
qed

lemma byte_of_int:
  assumes "0 \<le> x" "x < 256"
  shows "\<exists>v::byte. uint v = x \<and> toByte x = v"
  using uint_toByte[OF assms] by blast

lemma varint_1:
  assumes "0 \<le> j" "j < 0x80"
  shows "fromVarint (toByte j # rest) = Some (j, 1)"
proof -
  obtain v :: byte where v: "uint v = j" "toByte j = v"
    using byte_of_int[of j] assms by auto
  show ?thesis using first_byte_1[of v] assms v by (simp add: Let_def)
qed

lemma varint_2:
  assumes "0x80 \<le> j" "j < 0x4000"
  shows "fromVarint (toByte (js_or (js_sar j 8) 0x80) # toByte (js_and j 0xFF) # rest) = Some (j, 2)"
proof -
  define x where "x = j div 256"
  define a0 where "a0 = j mod 256"
  have x: "0 \<le> x" "x < 64" using assms by (simp_all add: x_def)
  have a0: "0 \<le> a0" "a0 < 256" by (simp_all add: a0_def)
  obtain v :: byte where v: "uint v = x" using byte_of_int[of x] x by auto
  note fb = first_byte_2[of v, unfolded v, rule_format, OF x(2)]
  have s: "js_sar j 8 = x" using assms by (simp add: js_sar_div x_def)
  have m: "js_and j 0xFF = a0" using assms by (simp add: js_and_255 a0_def)
  have u0: "uint (toByte (x + 128)) = x + 128" using x by (intro uint_toByte) auto
  have u1: "uint (toByte a0) = a0" using a0 by (rule uint_toByte)
  have sh: "js_shl x 8 = x * 256" using x js_shl_mult[of x 8] by simp
  have o: "js_or (x * 256) a0 = x * 256 + a0"
    using x a0 js_or_add[of x a0 8] by simp
  have "x * 256 + a0 = j" using int_split(1)[of j] assms by (simp add: x_def a0_def)
  then show ?thesis
    using fb by (simp add: s m u0 u1 sh o Let_def byteAt_def)
qed


lemma varint_3:
  assumes "0x4000 \<le> j" "j < 0x200000"
  shows "fromVarint (toByte (js_or (js_sar j 16) 0xC0) # toByte (js_and (js_sar j 8) 0xFF)
                     # toByte (js_and j 0xFF) # rest) = Some (j, 3)"
proof -
  define x where "x = j div 65536"
  define a1 where "a1 = j div 256 mod 256"
  define a0 where "a0 = j mod 256"
  have x: "0 \<le> x" "x < 32" using assms by (simp_all add: x_def)
  have a1: "0 \<le> a1" "a1 < 256" by (simp_all add: a1_def)
  have a0: "0 \<le> a0" "a0 < 256" by (simp_all add: a0_def)
  obtain v :: byte where v: "uint v = x" using byte_of_int[of x] x by auto
  note fb = first_byte_3[of v, unfolded v, rule_format, OF x(2)]
  have s: "js_sar j 16 = x" "js_sar j 8 = j div 256"
    using assms by (simp_all add: js_sar_div x_def)
  have "0 \<le> j div 256" "j div 256 < 2147483648" using assms by simp_all
  then have m1: "js_and (j div 256) 0xFF = a1" by (simp add: js_and_255 a1_def)
  have m0: "js_and j 0xFF = a0" using assms by (simp add: js_and_255 a0_def)
  have u0: "uint (toByte (x + 192)) = x + 192" using x by (intro uint_toByte) auto
  have u1: "uint (toByte a1) = a1" using a1 by (rule uint_toByte)
  have u2: "uint (toByte a0) = a0" using a0 by (rule uint_toByte)
  have sh: "js_shl x 16 = x * 65536" "js_shl a1 8 = a1 * 256"
    using x a1 js_shl_mult[of x 16] js_shl_mult[of a1 8] by simp_all
  have o1: "js_or (x * 65536) (a1 * 256) = x * 65536 + a1 * 256"
    using x a1 js_or_add[of x "a1 * 256" 16] by simp
  have o2: "js_or (x * 65536 + a1 * 256) a0 = x * 65536 + a1 * 256 + a0"
    using x a1 a0 js_or_add[of "x * 256 + a1" a0 8] by (simp add: algebra_simps)
  have "x * 65536 + a1 * 256 + a0 = j"
    using int_split(2)[of j] assms by (simp add: x_def a1_def a0_def)
  then show ?thesis
    using fb by (simp add: s m1 m0 u0 u1 u2 sh o1 o2 Let_def byteAt_def)
qed

lemma varint_4:
  assumes "0x200000 \<le> j" "j < 0x10000000"
  shows "fromVarint (toByte (js_or (js_sar j 24) 0xE0) # toByte (js_and (js_sar j 16) 0xFF)
                     # toByte (js_and (js_sar j 8) 0xFF) # toByte (js_and j 0xFF) # rest)
           = Some (j, 4)"
proof -
  define x where "x = j div 16777216"
  define a2 where "a2 = j div 65536 mod 256"
  define a1 where "a1 = j div 256 mod 256"
  define a0 where "a0 = j mod 256"
  have x: "0 \<le> x" "x < 16" using assms by (simp_all add: x_def)
  have a2: "0 \<le> a2" "a2 < 256" by (simp_all add: a2_def)
  have a1: "0 \<le> a1" "a1 < 256" by (simp_all add: a1_def)
  have a0: "0 \<le> a0" "a0 < 256" by (simp_all add: a0_def)
  obtain v :: byte where v: "uint v = x" using byte_of_int[of x] x by auto
  note fb = first_byte_4[of v, unfolded v, rule_format, OF x(2)]
  have s: "js_sar j 24 = x" "js_sar j 16 = j div 65536" "js_sar j 8 = j div 256"
    using assms by (simp_all add: js_sar_div x_def)
  have "0 \<le> j div 65536" "j div 65536 < 2147483648" using assms by simp_all
  then have m2: "js_and (j div 65536) 0xFF = a2" by (simp add: js_and_255 a2_def)
  have "0 \<le> j div 256" "j div 256 < 2147483648" using assms by simp_all
  then have m1: "js_and (j div 256) 0xFF = a1" by (simp add: js_and_255 a1_def)
  have m0: "js_and j 0xFF = a0" using assms by (simp add: js_and_255 a0_def)
  have u0: "uint (toByte (x + 224)) = x + 224" using x by (intro uint_toByte) auto
  have u1: "uint (toByte a2) = a2" using a2 by (rule uint_toByte)
  have u2: "uint (toByte a1) = a1" using a1 by (rule uint_toByte)
  have u3: "uint (toByte a0) = a0" using a0 by (rule uint_toByte)
  have sh: "js_shl x 24 = x * 16777216" "js_shl a2 16 = a2 * 65536" "js_shl a1 8 = a1 * 256"
    using x a2 a1 js_shl_mult[of x 24] js_shl_mult[of a2 16] js_shl_mult[of a1 8] by simp_all
  have o1: "js_or (x * 16777216) (a2 * 65536) = x * 16777216 + a2 * 65536"
    using x a2 js_or_add[of x "a2 * 65536" 24] by simp
  have o2: "js_or (x * 16777216 + a2 * 65536) (a1 * 256) = x * 16777216 + a2 * 65536 + a1 * 256"
    using x a2 a1 js_or_add[of "x * 256 + a2" "a1 * 256" 16] by (simp add: algebra_simps)
  have o3: "js_or (x * 16777216 + a2 * 65536 + a1 * 256) a0
              = x * 16777216 + a2 * 65536 + a1 * 256 + a0"
    using x a2 a1 a0 js_or_add[of "x * 65536 + a2 * 256 + a1" a0 8]
    by (simp add: algebra_simps)
  have "x * 16777216 + a2 * 65536 + a1 * 256 + a0 = j"
    using int_split(3)[of j] assms by (simp add: x_def a2_def a1_def a0_def)
  then show ?thesis
    using fb by (simp add: s m2 m1 m0 u0 u1 u2 u3 sh o1 o2 o3 Let_def byteAt_def)
qed

lemma varint_5:
  assumes "0x10000000 \<le> j" "j < 0x80000000"
  shows "fromVarint (toByte 0xF0 # toByte (js_and (js_sar j 24) 0xFF)
                     # toByte (js_and (js_sar j 16) 0xFF)
                     # toByte (js_and (js_sar j 8) 0xFF) # toByte (js_and j 0xFF) # rest)
           = Some (j, 5)"
proof -
  define x where "x = j div 16777216"
  define a2 where "a2 = j div 65536 mod 256"
  define a1 where "a1 = j div 256 mod 256"
  define a0 where "a0 = j mod 256"
  have x: "0 \<le> x" "x < 128" using assms by (simp_all add: x_def)
  have a2: "0 \<le> a2" "a2 < 256" by (simp_all add: a2_def)
  have a1: "0 \<le> a1" "a1 < 256" by (simp_all add: a1_def)
  have a0: "0 \<le> a0" "a0 < 256" by (simp_all add: a0_def)
  have s: "js_sar j 24 = x" "js_sar j 16 = j div 65536" "js_sar j 8 = j div 256"
    using assms by (simp_all add: js_sar_div x_def)
  have m3: "js_and x 0xFF = x" using x by (simp add: js_and_255)
  have "0 \<le> j div 65536" "j div 65536 < 2147483648" using assms by simp_all
  then have m2: "js_and (j div 65536) 0xFF = a2" by (simp add: js_and_255 a2_def)
  have "0 \<le> j div 256" "j div 256 < 2147483648" using assms by simp_all
  then have m1: "js_and (j div 256) 0xFF = a1" by (simp add: js_and_255 a1_def)
  have m0: "js_and j 0xFF = a0" using assms by (simp add: js_and_255 a0_def)
  have u0: "uint (toByte x) = x" using x by (intro uint_toByte) auto
  have u1: "uint (toByte a2) = a2" using a2 by (rule uint_toByte)
  have u2: "uint (toByte a1) = a1" using a1 by (rule uint_toByte)
  have u3: "uint (toByte a0) = a0" using a0 by (rule uint_toByte)
  have sh: "js_shl x 24 = x * 16777216" "js_shl a2 16 = a2 * 65536" "js_shl a1 8 = a1 * 256"
    using x a2 a1 js_shl_mult[of x 24] js_shl_mult[of a2 16] js_shl_mult[of a1 8] by simp_all
  have o1: "js_or (x * 16777216) (a2 * 65536) = x * 16777216 + a2 * 65536"
    using x a2 js_or_add[of x "a2 * 65536" 24] by simp
  have o2: "js_or (x * 16777216 + a2 * 65536) (a1 * 256) = x * 16777216 + a2 * 65536 + a1 * 256"
    using x a2 a1 js_or_add[of "x * 256 + a2" "a1 * 256" 16] by (simp add: algebra_simps)
  have o3: "js_or (x * 16777216 + a2 * 65536 + a1 * 256) a0
              = x * 16777216 + a2 * 65536 + a1 * 256 + a0"
    using x a2 a1 a0 js_or_add[of "x * 65536 + a2 * 256 + a1" a0 8]
    by (simp add: algebra_simps)
  have e: "x * 16777216 + a2 * 65536 + a1 * 256 + a0 = j"
    using int_split(3)[of j] assms by (simp add: x_def a2_def a1_def a0_def)
  have c: "js_and 240 128 \<noteq> 0" "js_and 240 192 \<noteq> 128" "js_and 240 240 = 240"
    "js_and 240 252 = 240"
    by (simp_all add: js_and_def toInt32_def)
  show ?thesis
    by (simp add: toByte_def[of 240] c) (simp add: s m3 m2 m1 m0 u0 u1 u2 u3 sh o1 o2 o3 e
        Let_def byteAt_def)
qed


text \<open>The bytes of the unsigned forms, as \<open>toVarint\<close> pushes them.\<close>

lemma varint_unsigned:
  assumes "0 \<le> j" "j < 0x80000000"
  shows "\<exists>bs. toVarint_unsigned arr j = Inr (VObject (map toByte arr @ bs) (length arr + length bs))
              \<and> (\<forall>rest. fromVarint (bs @ rest) = Some (j, length bs))"
proof -
  consider "j < 0x80" | "0x80 \<le> j" "j < 0x4000" | "0x4000 \<le> j" "j < 0x200000"
    | "0x200000 \<le> j" "j < 0x10000000" | "0x10000000 \<le> j"
    by linarith
  then show ?thesis
  proof cases
    case 1
    then show ?thesis using assms varint_1[of j]
      by (intro exI[of _ "[toByte j]"]) (simp add: toVarint_unsigned_def varint_object_def)
  next
    case 2
    then show ?thesis using varint_2[of j]
      by (intro exI[of _ "[toByte (js_or (js_sar j 8) 0x80), toByte (js_and j 0xFF)]"])
         (simp add: toVarint_unsigned_def varint_object_def)
  next
    case 3
    then show ?thesis using varint_3[of j]
      by (intro exI[of _ "[toByte (js_or (js_sar j 16) 0xC0), toByte (js_and (js_sar j 8) 0xFF),
                           toByte (js_and j 0xFF)]"])
         (simp add: toVarint_unsigned_def varint_object_def)
  next
    case 4
    then show ?thesis using varint_4[of j]
      by (intro exI[of _ "[toByte (js_or (js_sar j 24) 0xE0), toByte (js_and (js_sar j 16) 0xFF),
                           toByte (js_and (js_sar j 8) 0xFF), toByte (js_and j 0xFF)]"])
         (simp add: toVarint_unsigned_def varint_object_def)
  next
    case 5
    then show ?thesis using assms varint_5[of j]
      by (intro exI[of _ "[toByte 0xF0, toByte (js_and (js_sar j 24) 0xFF),
                           toByte (js_and (js_sar j 16) 0xFF),
                           toByte (js_and (js_sar j 8) 0xFF), toByte (js_and j 0xFF)]"])
         (simp add: toVarint_unsigned_def varint_object_def)
  qed
qed

lemma fromVarint_F8:
  "fromVarint (toByte 0xF8 # bs) =
     (case fromVarint bs of None \<Rightarrow> None | Some (rv, rl) \<Rightarrow> Some (js_not rv, 1 + rl))"
proof -
  have c: "js_and 248 128 \<noteq> 0" "js_and 248 192 \<noteq> 128" "js_and 248 240 = 240"
    "js_and 248 252 = 248"
    by (simp_all add: js_and_def toInt32_def)
  show ?thesis by (simp add: toByte_def[of 248] c)
qed

lemma varint_small_negative:
  assumes "0 \<le> j" "j \<le> 3"
  shows "fromVarint (toByte (js_or 0xFC j) # rest) = Some (- j - 1, 1)"
proof -
  have "j = 0 \<or> j = 1 \<or> j = 2 \<or> j = 3" using assms by linarith
  then show ?thesis by (auto simp: js_ops)
qed


text \<open>
  For every integer \<open>i\<close> with \<open>-(2^31) \<le> i < 2^31\<close>, \<open>toVarint\<close> succeeds and
  \<open>fromVarint\<close>, applied to its bytes followed by anything, returns \<open>i\<close> and the number of
  those bytes.
\<close>

theorem varint_roundtrip_int32:
  assumes "- 2147483648 \<le> i" "i < 2147483648"
  shows "\<exists>v. toVarint i = Inr v
             \<and> (\<forall>rest. fromVarint (varint_bytes v @ rest) = Some (i, varint_length v))"
proof (cases "i < 0")
  case False
  then obtain bs where "toVarint_unsigned [] i = Inr (VObject bs (length bs))"
      "\<forall>rest. fromVarint (bs @ rest) = Some (i, length bs)"
    using varint_unsigned[of i "[]"] assms by auto
  then show ?thesis using False by (simp add: toVarint_def)
next
  case True
  define j where "j = js_not i"
  have j: "j = - i - 1" "js_not j = i" using js_not_not[OF assms] by (simp_all add: j_def)
  have jr: "0 \<le> j" "j < 0x80000000" using True assms by (simp_all add: j)
  show ?thesis
  proof (cases "j \<le> 3")
    case small: True
    have "- j - 1 = i" by (simp add: j)
    then show ?thesis using True small varint_small_negative[OF jr(1) small]
      by (simp add: toVarint_def j_def[symmetric])
  next
    case False
    obtain bs where bs: "toVarint_unsigned [0xF8] j
                           = Inr (VObject (map toByte [0xF8] @ bs) (length [0xF8::int] + length bs))"
      "\<forall>rest. fromVarint (bs @ rest) = Some (j, length bs)"
      using varint_unsigned[OF jr, of "[0xF8]"] by auto
    have "\<forall>rest. fromVarint ((toByte 0xF8 # bs) @ rest) = Some (i, 1 + length bs)"
      using bs(2) by (simp add: fromVarint_F8 j(2) del: fromVarint.simps)
    then show ?thesis using True False bs(1)
      by (simp add: toVarint_def j_def[symmetric] del: fromVarint.simps)
  qed
qed

theorem varint_roundtrip_int32_witness:
  "\<exists>v. toVarint (- 5) = Inr v
       \<and> (\<forall>rest. fromVarint (varint_bytes v @ rest) = Some (- 5, varint_length v))"
  using varint_roundtrip_int32 [of "- 5"] by simp

subsection \<open>The claims on the varint codec\<close>

text \<open>
  Claim C2. For every integer \<open>i\<close> with \<open>-(2^31) \<le> i < 2^32\<close>, \<open>fromVarint\<close> applied to
  the bytes of \<open>toVarint(i)\<close> should return \<open>i\<close> and the number of those bytes. At
  \<open>i = 2^31\<close> the encoder emits the five-byte form \<open>F0 80 00 00 00\<close>, and the decoder,
  which assembles the four value bytes with signed 32-bit shifts, returns \<open>-(2^31)\<close>.
\<close>

theorem varint_roundtrip_fails_at_2_31:
  "toVarint 2147483648 = Inr (VObject [0xF0, 0x80, 0, 0, 0] 5)
   \<and> fromVarint [0xF0, 0x80, 0, 0, 0] = Some (- 2147483648, 5)"
  by (simp add: js_ops toVarint_def toVarint_unsigned_def varint_object_def)

text \<open>
  Claim C9, as amended. For every input whose first byte has the prefix \<open>0xF4\<close> (the
  64-bit form), \<open>fromVarint\<close> returns \<open>null\<close>, whatever bytes follow; it does not decode a
  truncated value.
\<close>

theorem fromVarint_64bit_prefix_null:
  assumes "js_and (uint v) 0xFC = 0xF4"
  shows "fromVarint (v # rest) = None"
proof -
  have "uint (v AND 0xFC) = 0xF4" using assms js_and_uint[of v "0xFC"] by simp
  then have p: "v AND 0xFC = 0xF4" by (simp add: word_uint_eq_iff)
  have "v AND 0x80 = (v AND 0xFC) AND 0x80" "v AND 0xC0 = (v AND 0xFC) AND 0xC0"
    "v AND 0xF0 = (v AND 0xFC) AND 0xF0"
    by (simp_all add: and.assoc)
  then have "v AND 0x80 = 0x80" "v AND 0xC0 = 0xC0" "v AND 0xF0 = 0xF0"
    by (simp_all add: p)
  then have "js_and (uint v) 0x80 = 0x80" "js_and (uint v) 0xC0 = 0xC0"
    "js_and (uint v) 0xF0 = 0xF0"
    using js_and_uint[of v "0x80"] js_and_uint[of v "0xC0"] js_and_uint[of v "0xF0"]
    by simp_all
  then show ?thesis using assms by (simp add: Let_def)
qed

theorem fromVarint_64bit_prefix_null_witness:
  "js_and (uint (0xF5 :: byte)) 0xFC = 0xF4
   \<and> fromVarint [0xF5, 0, 0, 0, 0, 0, 0, 0, 1] = None"
proof -
  have h: "js_and (uint (0xF5 :: byte)) 0xFC = 0xF4" by (simp add: js_ops)
  show ?thesis using h fromVarint_64bit_prefix_null [OF h, of "[0, 0, 0, 0, 0, 0, 0, 1]"]
    by simp
qed

text \<open>
  Claim C9 as stated asks for an error of its own kind for the 64-bit prefix. The decoder
  has one failure value, \<open>null\<close>: the 64-bit form and the empty input give the same
  result.
\<close>

theorem fromVarint_64bit_error_not_distinct:
  "fromVarint [0xF4, 0, 0, 0, 0, 0, 0, 0, 1] = fromVarint []"
  by (simp add: js_ops)

section \<open>Voice packets\<close>

subsection \<open>The round trip of packets without a position\<close>

lemma toVarint_value_roundtrip:
  assumes "0 \<le> i" "i < 2147483648"
  shows "\<exists>bs. toVarint_value i = Inr bs \<and> (\<forall>rest. fromVarint (bs @ rest) = Some (i, length bs))"
proof -
  obtain bs where "toVarint_unsigned [] i = Inr (VObject bs (length bs))"
      "\<forall>rest. fromVarint (bs @ rest) = Some (i, length bs)"
    using varint_unsigned[of i "[]"] assms by auto
  then show ?thesis using assms by (simp add: toVarint_value_def toVarint_def)
qed

lemma header_byte_opus:
  "uint (v::byte) < 32 \<longrightarrow>
     js_or (js_shl 4 5) (uint v) = 128 + uint v
     \<and> js_sar (128 + uint v) 5 = 4 \<and> js_and (128 + uint v) 0x1f = uint v"
  by (rule byte_cases) code_simp

lemma header_byte_celt_alpha:
  "uint (v::byte) < 32 \<longrightarrow>
     js_or (js_shl 0 5) (uint v) = uint v
     \<and> js_sar (uint v) 5 = 0 \<and> js_and (uint v) 0x1f = uint v"
  by (rule byte_cases) code_simp

lemma frame_header_byte:
  "uint (v::byte) < 128 \<longrightarrow>
     js_or (uint v) 0x80 = uint v + 128
     \<and> js_and (uint v + 128) 0x80 > 0 \<and> js_and (uint v + 128) 0x7F = uint v
     \<and> \<not> js_and (uint v) 0x80 > 0 \<and> js_and (uint v) 0x7F = uint v"
  by (rule byte_cases) code_simp

lemma js_and_8191:
  assumes "0 \<le> x" "x < 2147483648" shows "js_and x 0x1FFF = x mod 8192"
proof -
  have t: "toInt32 x = x" using assms by (intro toInt32_id) auto
  have "(8191::int) = mask 13" by (simp add: mask_eq_exp_minus_1)
  then have "x AND 8191 = take_bit 13 x" by (simp add: take_bit_eq_mask)
  moreover have "toInt32 8191 = 8191" by (simp add: toInt32_def)
  ultimately show ?thesis by (simp add: js_and_def t take_bit_eq_mod)
qed

lemma js_and_8192:
  assumes "0 \<le> x" "x < 2147483648" shows "js_and x 0x2000 > 0 \<longleftrightarrow> odd (x div 8192)"
proof -
  have t: "toInt32 x = x" using assms by (intro toInt32_id) auto
  have c: "toInt32 8192 = 8192" by (simp add: toInt32_def)
  have "(8192::int) = 2 ^ 13" by simp
  then have z: "x AND 8192 = 0 \<longleftrightarrow> \<not> bit x 13"
    using and_exp_eq_0_iff_not_bit[of x 13] by simp
  have "0 \<le> x AND 8192" by simp
  then have "x AND 8192 > 0 \<longleftrightarrow> bit x 13" using z by linarith
  also have "\<dots> \<longleftrightarrow> odd (x div 8192)" by (simp add: bit_iff_odd_drop_bit drop_bit_eq_div)
  finally show ?thesis by (simp add: js_and_def t c)
qed

lemma opus_size_and_end:
  assumes "0 \<le> n" "n < 8192"
  shows "js_and (js_or n (if e then 0x2000 else 0)) 0x2000 > 0 \<longleftrightarrow> e"
    and "js_and (js_or n (if e then 0x2000 else 0)) 0x1FFF = n"
    and "0 \<le> js_or n (if e then 0x2000 else 0)" 
    and "js_or n (if e then 0x2000 else 0) < 2147483648"
proof -
  have v: "js_or n (if e then 0x2000 else 0) = (if e then 8192 + n else n)"
  proof (cases e)
    case True
    have "js_or n 8192 = js_or (1 * 2 ^ 13) n"
      by (simp add: js_or_def or.commute)
    also have "\<dots> = 1 * 2 ^ 13 + n" using assms by (intro js_or_add) auto
    finally show ?thesis using True by simp
  next
    case False
    have "toInt32 n = n" using assms by (intro toInt32_id) auto
    then show ?thesis using False by (simp add: js_or_def toInt32_def)
  qed
  have d: "(8192 + n) div 8192 = 1" "n div 8192 = 0" "(8192 + n) mod 8192 = n"
    "n mod 8192 = n"
    using assms by simp_all
  show "js_and (js_or n (if e then 0x2000 else 0)) 0x2000 > 0 \<longleftrightarrow> e"
    unfolding v using assms js_and_8192[of "8192 + n"] js_and_8192[of n] d by simp
  show "js_and (js_or n (if e then 0x2000 else 0)) 0x1FFF = n"
    unfolding v using assms js_and_8191[of "8192 + n"] js_and_8191[of n] d by simp
  show "0 \<le> js_or n (if e then 0x2000 else 0)" unfolding v using assms by auto
  show "js_or n (if e then 0x2000 else 0) < 2147483648" unfolding v using assms by auto
qed


lemma opus_frames_roundtrip:
  assumes f: "frames = [] \<or> (\<exists>f. frames = [f] \<and> f \<noteq> [] \<and> length f \<le> 0x1FFF)"
  shows "\<exists>voiceData. opus_voiceData (v\<lparr>vd_frames := frames, vd_end := e\<rparr>) = Inr voiceData
           \<and> opus_frames (pre @ voiceData) (length pre)
               = Ok (frames, e, length pre + length voiceData)"
proof -
  define f where "f = concat frames"
  define n where "n = int (length f)"
  have n: "0 \<le> n" "n < 8192" using assms by (auto simp: n_def f_def)
  have fr: "frames = (if f = [] then [] else [f])" using assms by (auto simp: f_def)
  define val where "val = js_or n (if e then 0x2000 else 0)"
  note se = opus_size_and_end[OF n, of e, folded val_def]
  obtain bs where bs: "toVarint_value val = Inr bs"
      "\<forall>rest. fromVarint (bs @ rest) = Some (val, length bs)"
    using toVarint_value_roundtrip[OF se(3,4)] by auto
  have z: "js_or 0 (if e then 0x2000 else 0) = (if e then 0x2000 else 0)"
    by (simp add: js_or_def toInt32_def)
  have enc: "opus_voiceData (v\<lparr>vd_frames := frames, vd_end := e\<rparr>) = Inr (bs @ f)"
  proof (cases "f = []")
    case True
    then have "val = (if e then 0x2000 else 0)" by (simp add: val_def n_def z)
    then show ?thesis using True fr bs(1) by (simp add: opus_voiceData_def Let_def)
  next
    case False
    then show ?thesis using fr bs(1)
      by (simp add: opus_voiceData_def Let_def val_def n_def)
  qed
  have dec: "opus_frames (pre @ bs @ f) (length pre) = Ok (frames, e, length pre + length (bs @ f))"
    using bs(2) se(1,2) fr
    by (simp add: opus_frames_def Let_def n_def del: fromVarint.simps)
  show ?thesis using enc dec by blast
qed

lemma length_celt_frame_bytes [simp]: "length (celt_frame_bytes f) = Suc (length f)"
  by (simp add: celt_frame_bytes_def)

lemma celt_push_frames_eq:
  assumes "list_all (\<lambda>f. length f \<le> 127) frames"
  shows "celt_push_frames frames acc
           = Inr (acc @ concat (map (\<lambda>f. [[toByte (js_or (int (length f)) 0x80)], f]) frames))"
  using assms by (induction frames arbitrary: acc) simp_all

lemma frame_length_byte:
  assumes "length (f::buffer) \<le> 127"
  shows "uint (toByte (js_or (int (length f)) 0x80)) = int (length f) + 128"
    and "uint (toByte (js_and (int (length f) + 128) 0x7F)) = int (length f)"
    and "js_and (int (length f) + 128) 0x80 > 0"
    and "js_and (int (length f) + 128) 0x7F = int (length f)"
    and "\<not> js_and (int (length f)) 0x80 > 0"
    and "js_and (int (length f)) 0x7F = int (length f)"
    and "uint (toByte (int (length f))) = int (length f)"
proof -
  define n where "n = int (length f)"
  have n: "0 \<le> n" "n < 128" using assms by (simp_all add: n_def)
  obtain w :: byte where w: "uint w = n" using byte_of_int[of n] n by auto
  note fb = frame_header_byte[of w, unfolded w, rule_format, OF n(2)]
  show "uint (toByte (js_or (int (length f)) 0x80)) = int (length f) + 128"
    using fb n by (simp add: n_def[symmetric] uint_toByte)
  show "uint (toByte (js_and (int (length f) + 128) 0x7F)) = int (length f)"
    using fb n by (simp add: n_def[symmetric] uint_toByte)
  show "js_and (int (length f) + 128) 0x80 > 0" using fb by (simp add: n_def[symmetric])
  show "js_and (int (length f) + 128) 0x7F = int (length f)"
    using fb by (simp add: n_def[symmetric])
  show "\<not> js_and (int (length f)) 0x80 > 0" using fb by (simp add: n_def[symmetric])
  show "js_and (int (length f)) 0x7F = int (length f)" using fb by (simp add: n_def[symmetric])
  show "uint (toByte (int (length f))) = int (length f)"
    using n by (simp add: n_def[symmetric] uint_toByte)
qed

lemma celt_frames_continue:
  assumes "list_all (\<lambda>f. length f \<le> 127) frames"
  shows "celt_frames (pre @ concat (map celt_frame_bytes frames) @ tail) (length pre) acc
           = celt_frames (pre @ concat (map celt_frame_bytes frames) @ tail)
               (length pre + length (concat (map celt_frame_bytes frames))) (acc @ frames)"
  using assms
proof (induction frames arbitrary: pre acc)
  case Nil
  then show ?case by simp
next
  case (Cons f fs)
  define rest where "rest = concat (map celt_frame_bytes fs) @ tail"
  define chunk where "chunk = pre @ celt_frame_bytes f @ rest"
  have lf: "length f \<le> 127" and lfs: "list_all (\<lambda>f. length f \<le> 127) fs"
    using Cons.prems by simp_all
  note b = frame_length_byte[OF lf]
  have h: "chunk ! length pre = toByte (js_or (int (length f)) 0x80)"
    by (simp add: chunk_def celt_frame_bytes_def nth_append)
  have nz: "toByte (js_or (int (length f)) 0x80) \<noteq> 0"
  proof
    assume "toByte (js_or (int (length f)) 0x80) = 0"
    then have "uint (toByte (js_or (int (length f)) 0x80)) = 0" by simp
    then show False using b(1) by simp
  qed
  have l: "length chunk = length pre + 1 + length f + length rest"
    by (simp add: chunk_def celt_frame_bytes_def)
  have t: "take (length f) (drop (length pre + 1) chunk) = f"
    by (simp add: chunk_def celt_frame_bytes_def)
  have step: "celt_frames chunk (length pre) acc
                = celt_frames chunk (length pre + 1 + length f) (acc @ [f])"
    using h nz b l t
    by (subst celt_frames.simps) (simp add: Let_def)
  have "celt_frames ((pre @ celt_frame_bytes f) @ concat (map celt_frame_bytes fs) @ tail)
          (length (pre @ celt_frame_bytes f)) (acc @ [f])
        = celt_frames ((pre @ celt_frame_bytes f) @ concat (map celt_frame_bytes fs) @ tail)
            (length (pre @ celt_frame_bytes f) + length (concat (map celt_frame_bytes fs)))
            ((acc @ [f]) @ fs)"
    using Cons.IH[OF lfs] .
  then show ?case using step
    by (simp add: chunk_def rest_def add.assoc)
qed


lemma concat_pushed:
  "concat (concat (map (\<lambda>f. [[toByte (js_or (int (length f)) 0x80)], f]) frames))
     = concat (map celt_frame_bytes frames)"
  by (induction frames) (simp_all add: celt_frame_bytes_def)

lemma length_pushed:
  "length (concat (map (\<lambda>f. [[toByte (js_or (int (length f)) 0x80)], f]) frames))
     = 2 * length frames"
  by (induction frames) simp_all

lemma celt_frames_roundtrip:
  assumes le: "list_all (\<lambda>f. length f \<le> 127) frames"
    and ne: "e \<or> (frames \<noteq> [] \<and> last frames \<noteq> [])"
  shows "\<exists>voiceData. celt_voiceData (v\<lparr>vd_frames := frames, vd_end := e\<rparr>) = Inr voiceData
           \<and> celt_frames (pre @ voiceData) (length pre) []
               = Ok (frames, e, length pre + length voiceData)"
proof (cases e)
  case True
  define pushed where
    "pushed = concat (map (\<lambda>f. [[toByte (js_or (int (length f)) 0x80)], f]) frames)"
  define body where "body = concat (map celt_frame_bytes frames)"
  have z: "toByte (js_and 0 0x7F) = 0" by (simp add: js_ops)
  have k: "length (pushed @ [[0], []]) - 2 = length pushed" by simp
  have "(pushed @ [[0], []])[length pushed := [0::byte]] = pushed @ [[0], []]"
    by (simp add: list_update_append)
  then have enc: "celt_voiceData (v\<lparr>vd_frames := frames, vd_end := e\<rparr>) = Inr (body @ [0])"
    using True celt_push_frames_eq[OF le, of "[]"] concat_pushed[of frames]
    by (simp add: celt_voiceData_def Let_def pushed_def[symmetric] k z body_def
        nth_append del: length_append)
  have "celt_frames (pre @ body @ [0]) (length pre) []
          = celt_frames (pre @ body @ [0]) (length pre + length body) frames"
    using celt_frames_continue[OF le, of pre "[0]" "[]"] by (simp add: body_def)
  also have "\<dots> = Ok (frames, True, length pre + length body + 1)"
    by (subst celt_frames.simps) (simp add: nth_append)
  finally show ?thesis using enc True by simp
next
  case False
  then have nz: "frames \<noteq> []" "last frames \<noteq> []" using ne by simp_all
  define fs where "fs = butlast frames"
  define f where "f = last frames"
  have fr: "frames = fs @ [f]" using nz by (simp add: fs_def f_def)
  have lfs: "list_all (\<lambda>f. length f \<le> 127) fs" and lf: "length f \<le> 127"
    using le by (simp_all add: fr)
  note b = frame_length_byte[OF lf]
  define P where
    "P = concat (map (\<lambda>f. [[toByte (js_or (int (length f)) 0x80)], f]) fs)"
  define body where "body = concat (map celt_frame_bytes fs)"
  define h where "h = toByte (js_or (int (length f)) 0x80)"
  have pushed: "celt_push_frames frames [] = Inr (P @ [[h], f])"
    using celt_push_frames_eq[OF le, of "[]"] by (simp add: fr P_def h_def)
  have k: "length (P @ [[h], f]) - 2 = length P" by simp
  have hb: "toByte (js_and (uint h) 0x7F) = toByte (int (length f))"
    using b(1,4) by (simp add: h_def)
  have "concat ((P @ [[h], f])[length P := [toByte (int (length f))]])
          = body @ toByte (int (length f)) # f"
    using concat_pushed[of fs] by (simp add: list_update_append P_def body_def)
  then have enc: "celt_voiceData (v\<lparr>vd_frames := frames, vd_end := e\<rparr>)
                    = Inr (body @ toByte (int (length f)) # f)"
    using False nz pushed
    by (simp add: celt_voiceData_def Let_def k hb nth_append del: length_append)
  define chunk where "chunk = pre @ body @ toByte (int (length f)) # f"
  have hd: "chunk ! (length pre + length body) = toByte (int (length f))"
    by (simp add: chunk_def nth_append)
  have hnz: "toByte (int (length f)) \<noteq> 0"
  proof
    assume "toByte (int (length f)) = 0"
    then have "uint (toByte (int (length f))) = 0" by simp
    then show False using b(7) nz(2) by (simp add: f_def)
  qed
  have l: "length chunk = length pre + length body + 1 + length f" by (simp add: chunk_def)
  have t: "take (length f) (drop (length pre + length body + 1) chunk) = f"
    by (simp add: chunk_def)
  have "celt_frames chunk (length pre) []
          = celt_frames chunk (length pre + length body) fs"
    using celt_frames_continue[OF lfs, of pre "toByte (int (length f)) # f" "[]"]
    by (simp add: body_def chunk_def)
  also have "\<dots> = Ok (fs @ [f], False, length pre + length body + 1 + length f)"
    using hd hnz b(5,6,7) l t nz(2)
    by (subst celt_frames.simps) (simp add: Let_def f_def[symmetric])
  finally show ?thesis using enc False by (simp add: chunk_def fr)
qed


lemma decode_prefix:
  assumes sb: "if dest = Client then
                 (\<exists>s. src = Some s \<and> (\<forall>rest. fromVarint (sb @ rest) = Some (s, length sb)))
               else sb = []"
    and qb: "\<forall>rest. fromVarint (qb @ rest) = Some (q, length qb)"
    and hb: "js_sar (uint hb) 5 = cid" "cid \<noteq> 1" "js_and (uint hb) 0x1f = m"
    and fr: "decode_frames cid (hb # sb @ qb @ vd) (length (hb # sb @ qb))
               = Ok (codec, frames, e, length (hb # sb @ qb @ vd))"
  shows "voice_Decoder_transform (other_end dest) (hb # sb @ qb @ vd)
           = Ok (VoicePacket \<lparr>vp_target = target_name m,
                   vp_source = (if dest = Client then src else None),
                   vp_seqNum = q, vp_end = e, vp_frames = frames, vp_codec = codec,
                   vp_position = None\<rparr>)"
proof -
  define chunk where "chunk = hb # sb @ qb @ vd"
  have src: "decode_source (other_end dest) chunk 1
               = Ok (if dest = Client then src else None, 1 + length sb)"
  proof (cases dest)
    case Client
    then obtain s where s: "src = Some s" "\<forall>rest. fromVarint (sb @ rest) = Some (s, length sb)"
      using sb by auto
    then have "fromVarint (drop 1 chunk) = Some (s, length sb)"
      by (simp add: chunk_def del: fromVarint.simps)
    then show ?thesis using Client s(1)
      by (simp add: decode_source_def other_end_def del: fromVarint.simps)
  next
    case Server
    then show ?thesis using sb by (simp add: decode_source_def other_end_def)
  qed
  have seq: "fromVarint (drop (1 + length sb) chunk) = Some (q, length qb)"
    using qb by (simp add: chunk_def del: fromVarint.simps)
  have fr': "decode_frames cid chunk (1 + length sb + length qb)
               = Ok (codec, frames, e, length chunk)"
    using fr by (simp add: chunk_def)
  have pos: "decode_position chunk (length chunk) = None" by (simp add: decode_position_def)
  have b0: "byteAt chunk 0 = uint hb" by (simp add: byteAt_def chunk_def)
  have ne: "length chunk \<noteq> 0" by (simp add: chunk_def)
  have "voice_Decoder_transform (other_end dest) chunk
           = Ok (VoicePacket \<lparr>vp_target = target_name m,
                   vp_source = (if dest = Client then src else None),
                   vp_seqNum = q, vp_end = e, vp_frames = frames, vp_codec = codec,
                   vp_position = None\<rparr>)"
    unfolding voice_Decoder_transform_def Let_def b0 src
    using ne hb seq fr' pos by (simp del: fromVarint.simps)
  then show ?thesis by (simp only: chunk_def)
qed


text \<open>
  The encoder's Buffer. Up to the position the bytes are written one after the other:
  header byte, source, sequence number, voice data, with the rest of the Buffer behind
  them.
\<close>

lemma length_new_Buffer [simp]: "length (new_Buffer memory n) = n"
  by (simp add: new_Buffer_def)

lemma length_toVarint_value:
  assumes "toVarint_value i = Inr bs" shows "length bs \<le> 6"
  using assms
  by (auto simp: toVarint_value_def toVarint_def toVarint_unsigned_def varint_object_def Let_def
      split: if_splits sum.splits varint.splits)

lemma copy_to_fits:
  assumes "length pre = off" "length v \<le> length tail"
  shows "copy_to v (pre @ tail) off = (pre @ v @ drop (length v) tail, length v)"
  using assms by (simp add: copy_to_def buffer_copy_def Let_def min_def)

lemma writeUInt8_first:
  assumes "0 \<le> h" "h \<le> 255" "0 < n"
  shows "writeUInt8 (new_Buffer memory n) h 0
           = Inr (toByte h # drop 1 (new_Buffer memory n), 0 + 1)"
proof -
  obtain x xs where "new_Buffer memory n = x # xs"
    using assms(3) length_new_Buffer[of memory n] by (cases "new_Buffer memory n") auto
  then show ?thesis using assms by (simp add: writeUInt8_def)
qed

lemma encode_voice_steps:
  assumes h: "0 \<le> js_or (js_shl codecId 5) (vd_mode v)" "js_or (js_shl codecId 5) (vd_mode v) \<le> 255"
    and src: "(if dest = Client then
                 (case vd_source v of None \<Rightarrow> Inl TypeError | Some s \<Rightarrow> toVarint_value s)
               else Inr []) = Inr sb"
    and seq: "toVarint_value (vd_seqNum v) = Inr qb"
  shows "\<exists>tail. length tail = 30 - length sb - length qb
           \<and> length sb + length qb \<le> 12
           \<and> encode_voice memory dest v codecId vd
               = (case encode_position
                         ((toByte (js_or (js_shl codecId 5) (vd_mode v)) # sb @ qb @ vd) @ tail)
                         (1 + length sb + length qb + length vd) (vd_position v) of
                    Inl e \<Rightarrow> Inl e
                  | Inr (buffer5, offset5) \<Rightarrow> Inr (take offset5 buffer5))"
proof -
  define hb where "hb = toByte (js_or (js_shl codecId 5) (vd_mode v))"
  define B where "B = drop 1 (new_Buffer memory (1 + 9 + 9 + length vd + 3 * 4))"
  have lB: "length B = 30 + length vd" by (simp add: B_def)
  have wr: "writeUInt8 (new_Buffer memory (1 + 9 + 9 + length vd + 3 * 4))
              (js_or (js_shl codecId 5) (vd_mode v)) 0 = Inr (hb # B, 0 + 1)"
    unfolding hb_def B_def using writeUInt8_first[OF h, of "1 + 9 + 9 + length vd + 3 * 4" memory]
    by simp
  have lsb: "length sb \<le> 6" using src length_toVarint_value
    by (auto split: if_splits option.splits)
  have lqb: "length qb \<le> 6" using seq length_toVarint_value by auto
  have es: "encode_source dest v (hb # B) (0 + 1)
              = Inr ((hb # sb) @ drop (length sb) B, length (hb # sb))"
  proof (cases dest)
    case Server
    then show ?thesis using src by (simp add: encode_source_def)
  next
    case Client
    then obtain s where s: "vd_source v = Some s" "toVarint_value s = Inr sb"
      using src by (auto split: option.splits)
    have "copy_to sb ([hb] @ B) 1 = ([hb] @ sb @ drop (length sb) B, length sb)"
      using lsb lB by (intro copy_to_fits) simp_all
    then show ?thesis using Client s by (simp add: encode_source_def)
  qed
  have c1: "copy_to qb ((hb # sb) @ drop (length sb) B) (length (hb # sb))
              = ((hb # sb) @ qb @ drop (length qb) (drop (length sb) B), length qb)"
    using lsb lqb lB by (intro copy_to_fits) simp_all
  have c2: "copy_to vd ((hb # sb @ qb) @ drop (length qb) (drop (length sb) B))
                (length (hb # sb @ qb))
              = ((hb # sb @ qb) @ vd @ drop (length vd) (drop (length qb) (drop (length sb) B)),
                 length vd)"
    using lsb lqb lB by (intro copy_to_fits) simp_all
  define tail where "tail = drop (length vd) (drop (length qb) (drop (length sb) B))"
  have lt: "length tail = 30 - length sb - length qb" using lB by (simp add: tail_def)
  have "encode_voice memory dest v codecId vd
          = (case encode_position ((hb # sb @ qb @ vd) @ tail)
                    (1 + length sb + length qb + length vd) (vd_position v) of
               Inl e \<Rightarrow> Inl e
             | Inr (buffer5, offset5) \<Rightarrow> Inr (take offset5 buffer5))"
    unfolding encode_voice_def Let_def wr
    using es seq c1 c2 by (simp add: tail_def add.assoc)
  then show ?thesis using lt lsb lqb unfolding hb_def by (intro exI[of _ tail]) simp
qed

lemma encode_voice_plain:
  assumes h: "0 \<le> js_or (js_shl codecId 5) (vd_mode v)" "js_or (js_shl codecId 5) (vd_mode v) \<le> 255"
    and src: "(if dest = Client then
                 (case vd_source v of None \<Rightarrow> Inl TypeError | Some s \<Rightarrow> toVarint_value s)
               else Inr []) = Inr sb"
    and seq: "toVarint_value (vd_seqNum v) = Inr qb"
    and pos: "vd_position v = None"
  shows "encode_voice memory dest v codecId vd
           = Inr (toByte (js_or (js_shl codecId 5) (vd_mode v)) # sb @ qb @ vd)"
  using encode_voice_steps[OF h src seq, of memory vd] pos
  by (auto simp: encode_position_def)

text \<open>
  With a position: the first float is written behind the voice data at \<open>offset\<close>, the
  second at \<open>2 * offset + 4\<close>, the third at \<open>4 * offset + 12\<close>. When the third does not fit
  in the Buffer, a write throws.
\<close>

lemma length_writeFloatBE:
  assumes "writeFloatBE buf w offset = Inr (buf', r)"
  shows "length buf' = length buf \<and> r = offset + 4"
  using assms by (auto simp: writeFloatBE_def buffer_copy_def float_bytes_def Let_def split: if_splits)

lemma encode_position_throws:
  assumes "length buffer < 4 * offset + 16"
  shows "encode_position buffer offset (Some (x, y, z)) = Inl RangeError"
proof (cases "writeFloatBE buffer x offset")
  case (Inl e)
  then have "e = RangeError" by (simp add: writeFloatBE_def split: if_splits)
  then show ?thesis using Inl by (simp add: encode_position_def)
next
  case (Inr a)
  then obtain buffer1 r1 where 1: "writeFloatBE buffer x offset = Inr (buffer1, r1)"
    by (cases a) simp
  note l1 = length_writeFloatBE[OF 1]
  show ?thesis
  proof (cases "writeFloatBE buffer1 y (offset + r1)")
    case (Inl e)
    then have "e = RangeError" by (simp add: writeFloatBE_def split: if_splits)
    then show ?thesis using 1 Inl by (simp add: encode_position_def)
  next
    case (Inr b)
    then obtain buffer2 r2 where 2: "writeFloatBE buffer1 y (offset + r1) = Inr (buffer2, r2)"
      by (cases b) simp
    note l2 = length_writeFloatBE[OF 2]
    have "writeFloatBE buffer2 z (offset + r1 + r2) = Inl RangeError"
      using assms l1 l2 by (simp add: writeFloatBE_def)
    then show ?thesis using 1 2 by (simp add: encode_position_def)
  qed
qed

lemma encode_voice_position_throws:
  assumes h: "0 \<le> js_or (js_shl codecId 5) (vd_mode v)" "js_or (js_shl codecId 5) (vd_mode v) \<le> 255"
    and src: "(if dest = Client then
                 (case vd_source v of None \<Rightarrow> Inl TypeError | Some s \<Rightarrow> toVarint_value s)
               else Inr []) = Inr sb"
    and seq: "toVarint_value (vd_seqNum v) = Inr qb"
    and pos: "vd_position v = Some p"
    and big: "11 < 4 * length sb + 4 * length qb + 3 * length vd"
  shows "encode_voice memory dest v codecId vd = Inl RangeError"
proof -
  obtain tail where t: "length tail = 30 - length sb - length qb"
      "length sb + length qb \<le> 12"
      "encode_voice memory dest v codecId vd
         = (case encode_position
                   ((toByte (js_or (js_shl codecId 5) (vd_mode v)) # sb @ qb @ vd) @ tail)
                   (1 + length sb + length qb + length vd) (vd_position v) of
              Inl e \<Rightarrow> Inl e
            | Inr (buffer5, offset5) \<Rightarrow> Inr (take offset5 buffer5))"
    using encode_voice_steps[OF h src seq, of memory vd] by blast
  obtain x y z where p: "p = (x, y, z)" by (cases p) auto
  have "encode_position
          ((toByte (js_or (js_shl codecId 5) (vd_mode v)) # sb @ qb @ vd) @ tail)
          (1 + length sb + length qb + length vd) (Some (x, y, z)) = Inl RangeError"
    using t(1,2) big by (intro encode_position_throws) simp
  then show ?thesis using t(3) pos p by simp
qed

text \<open>
  For every packet in \<open>plain_voice_data\<close> the encoder succeeds, and the decoder for the
  other end of the link returns the packet, with its mode as a target name.
\<close>

theorem voice_roundtrip_without_position:
  assumes "plain_voice_data dest v"
  shows "\<exists>bytes. voice_Encoder_transform memory dest (VoiceData v) = Inr bytes
           \<and> voice_Decoder_transform (other_end dest) bytes
               = Ok (VoicePacket (decoded_voice dest v))"
proof -
  note a = assms[unfolded plain_voice_data_def int31_def]
  have m: "0 \<le> vd_mode v" "vd_mode v < 32" and pos: "vd_position v = None" using a by simp_all
  obtain w :: byte where w: "uint w = vd_mode v" using byte_of_int[of "vd_mode v"] m by auto
  obtain qb where qb: "toVarint_value (vd_seqNum v) = Inr qb"
      "\<forall>rest. fromVarint (qb @ rest) = Some (vd_seqNum v, length qb)"
    using toVarint_value_roundtrip[of "vd_seqNum v"] a by auto
  obtain sb where sb: "(if dest = Client then
                          (case vd_source v of None \<Rightarrow> Inl TypeError
                           | Some s \<Rightarrow> toVarint_value s)
                        else Inr []) = Inr sb"
      "if dest = Client then
         (\<exists>s. vd_source v = Some s \<and> (\<forall>rest. fromVarint (sb @ rest) = Some (s, length sb)))
       else sb = []"
  proof (cases dest)
    case Server
    then show ?thesis using that[of "[]"] by simp
  next
    case Client
    then obtain s where s: "vd_source v = Some s" "0 \<le> s" "s < 2147483648"
      using a by (auto split: option.splits)
    then obtain bs where "toVarint_value s = Inr bs"
        "\<forall>rest. fromVarint (bs @ rest) = Some (s, length bs)"
      using toVarint_value_roundtrip[of s] by auto
    then show ?thesis using that[of bs] Client s(1) by simp
  qed
  have vv: "v\<lparr>vd_frames := vd_frames v, vd_end := vd_end v\<rparr> = v" by simp
  show ?thesis
  proof (cases "vd_codec v = ''Opus''")
    case True
    have f: "vd_frames v = [] \<or> (\<exists>f. vd_frames v = [f] \<and> f \<noteq> [] \<and> length f \<le> 0x1FFF)"
      using a True by (auto split: list.splits)
    define hb where "hb = toByte (128 + vd_mode v)"
    note hbo = header_byte_opus[of w, unfolded w, rule_format, OF m(2)]
    have u: "uint hb = 128 + vd_mode v" using m by (simp add: hb_def uint_toByte)
    have wr: "encode_voice memory dest v 4 vd = Inr (hb # sb @ qb @ vd)" for vd
      using encode_voice_plain[OF _ _ sb(1) qb(1) pos, of 4 memory vd] hbo m
      by (simp add: hb_def)
    obtain vd where vd: "opus_voiceData v = Inr vd"
        "opus_frames ((hb # sb @ qb) @ vd) (length (hb # sb @ qb))
           = Ok (vd_frames v, vd_end v, length (hb # sb @ qb) + length vd)"
      using opus_frames_roundtrip[OF f, where v = v and e = "vd_end v" and pre = "hb # sb @ qb"]
      unfolding vv by auto
    have enc: "voice_Encoder_transform memory dest (VoiceData v) = Inr (hb # sb @ qb @ vd)"
      using True vd(1) wr by (simp add: voice_Encoder_transform_def)
    have fr: "decode_frames 4 (hb # sb @ qb @ vd) (length (hb # sb @ qb))
                = Ok (''Opus'', vd_frames v, vd_end v, length (hb # sb @ qb @ vd))"
      using vd(2) by (simp add: decode_frames_def)
    have "voice_Decoder_transform (other_end dest) (hb # sb @ qb @ vd)
            = Ok (VoicePacket (decoded_voice dest v))"
      unfolding decoded_voice_def True
      using decode_prefix[OF sb(2) qb(2) _ _ _ fr, of "vd_mode v"] hbo u by simp
    then show ?thesis using enc by blast
  next
    case False
    then have c: "vd_codec v = ''CELT_Alpha''"
      and le: "list_all (\<lambda>f. length f \<le> 127) (vd_frames v)"
      and ne: "vd_end v \<or> (vd_frames v \<noteq> [] \<and> last (vd_frames v) \<noteq> [])"
      using a by (auto split: if_splits)
    define hb where "hb = toByte (vd_mode v)"
    note hbc = header_byte_celt_alpha[of w, unfolded w, rule_format, OF m(2)]
    have u: "uint hb = vd_mode v" using m by (simp add: hb_def uint_toByte)
    have wr: "encode_voice memory dest v 0 vd = Inr (hb # sb @ qb @ vd)" for vd
      using encode_voice_plain[OF _ _ sb(1) qb(1) pos, of 0 memory vd] hbc m
      by (simp add: hb_def)
    obtain vd where vd: "celt_voiceData v = Inr vd"
        "celt_frames ((hb # sb @ qb) @ vd) (length (hb # sb @ qb)) []
           = Ok (vd_frames v, vd_end v, length (hb # sb @ qb) + length vd)"
      using celt_frames_roundtrip[OF le ne, where v = v and pre = "hb # sb @ qb"]
      unfolding vv by auto
    have enc: "voice_Encoder_transform memory dest (VoiceData v) = Inr (hb # sb @ qb @ vd)"
      using c vd(1) wr by (simp add: voice_Encoder_transform_def celt_codecId_def)
    have fr: "decode_frames 0 (hb # sb @ qb @ vd) (length (hb # sb @ qb))
                = Ok (''CELT_Alpha'', vd_frames v, vd_end v, length (hb # sb @ qb @ vd))"
      using vd(2) by (simp add: decode_frames_def is_celt_or_speex_def celt_codec_name_def)
    have "voice_Decoder_transform (other_end dest) (hb # sb @ qb @ vd)
            = Ok (VoicePacket (decoded_voice dest v))"
      unfolding decoded_voice_def c
      using decode_prefix[OF sb(2) qb(2) _ _ _ fr, of "vd_mode v"] hbc u by simp
    then show ?thesis using enc by blast
  qed
qed

theorem voice_roundtrip_without_position_witness:
  "\<exists>bytes. voice_Encoder_transform [] Client
       (VoiceData \<lparr>vd_source = Some 7, vd_mode = 1, vd_codec = ''CELT_Alpha'', vd_seqNum = 300,
                   vd_end = True, vd_frames = [[0x11], [0x22, 0x23]],
                   vd_position = None\<rparr>) = Inr bytes
     \<and> voice_Decoder_transform Server bytes
         = Ok (VoicePacket \<lparr>vp_target = ''shout'', vp_source = Some 7, vp_seqNum = 300,
                             vp_end = True, vp_frames = [[0x11], [0x22, 0x23]],
                             vp_codec = ''CELT_Alpha'', vp_position = None\<rparr>)"
proof -
  have h: "plain_voice_data Client
             \<lparr>vd_source = Some 7, vd_mode = 1, vd_codec = ''CELT_Alpha'', vd_seqNum = 300,
              vd_end = True, vd_frames = [[0x11], [0x22, 0x23]], vd_position = None\<rparr>"
    by (simp add: plain_voice_data_def int31_def)
  show ?thesis
    using voice_roundtrip_without_position [OF h, of "[]"]
    by (simp add: other_end_def decoded_voice_def target_name_def)
qed

subsection \<open>The claims on the voice codec\<close>

text \<open>
  Claim C6. For a well-formed voice packet with codec id 0, 2 or 3 the decoder should
  give a packet of the matching codec with the frames read by the continuation-bit
  loop. For codec id 2 (Speex) and 3 (CELT_Beta) the branch test evaluates the
  undeclared identifier \<open>codecIf\<close>: the packets below, one frame \<open>22\<close> with sequence
  number 0 from a client, end in a ReferenceError handed to the callback, and no packet
  is produced.
\<close>

theorem speex_and_celt_beta_throw:
  "voice_Decoder_transform Client [0x40, 0x00, 0x01, 0x22] = Throw ReferenceError
   \<and> voice_Decoder_transform Client [0x60, 0x00, 0x01, 0x22] = Throw ReferenceError"
  by (simp add: voice_Decoder_transform_def decode_source_def decode_frames_def
      is_celt_or_speex_def codecIf_def js_ops)

text \<open>
  A ping whose varint is cut short (\<open>80\<close> announces a second byte that is not there) is
  decoded as timestamp 0: \<open>fromVarint\<close> reads the missing byte as 0.
\<close>

lemma short_ping_is_decoded:
  "voice_Decoder_transform Client [0x20, 0x80] = Ok (PingPacket 0)"
  by (simp add: voice_Decoder_transform_def js_ops)

text \<open>
  Claim C7. Every malformed packet should be dropped with a diagnostic and without an
  error reaching the stream. A packet with the unknown codec id 5 reaches the test on
  \<open>codecIf\<close> and ends in a ReferenceError handed to the callback, instead of the
  \<open>reject('unknown codec 5')\<close> two lines below.
\<close>

theorem unknown_codec_throws:
  "voice_Decoder_transform Client [0xA0, 0x00] = Throw ReferenceError"
  by (simp add: voice_Decoder_transform_def decode_source_def decode_frames_def
      is_celt_or_speex_def codecIf_def js_ops)

text \<open>
  A packet with a position whose three floats all fit: an Opus packet without a frame,
  to a server, in a zero-filled Buffer. The floats lie at offsets 3, 10 and 24 of the
  32 bytes, and the decoder, reading twelve bytes from offset 3, returns another
  position.
\<close>

lemma position_written_with_gaps:
  "voice_Encoder_transform [] Server
     (VoiceData \<lparr>vd_source = None, vd_mode = 0, vd_codec = ''Opus'', vd_seqNum = 5,
                 vd_end = False, vd_frames = [],
                 vd_position = Some (0x3F800000, 0x40000000, 0xBFC00000)\<rparr>)
     = Inr [0x80, 5, 0, 0x3F, 0x80, 0, 0, 0, 0, 0, 0x40, 0, 0, 0, 0, 0,
            0, 0, 0, 0, 0, 0, 0, 0, 0xBF, 0xC0, 0, 0, 0, 0, 0, 0]
   \<and> voice_Decoder_transform Client
       [0x80, 5, 0, 0x3F, 0x80, 0, 0, 0, 0, 0, 0x40, 0, 0, 0, 0, 0,
        0, 0, 0, 0, 0, 0, 0, 0, 0xBF, 0xC0, 0, 0, 0, 0, 0, 0]
     = Ok (VoicePacket \<lparr>vp_target = ''normal'', vp_source = None, vp_seqNum = 5,
                         vp_end = False, vp_frames = [], vp_codec = ''Opus'',
                         vp_position = Some (0x3F800000, 0x00000040, 0x00000000)\<rparr>)"
  by code_simp

text \<open>
  Claim C3. Decoding what the encoder produced should give the packet back, also when
  it carries a position. The encoder advances through its Buffer with
  \<open>offset += buffer.writeFloatBE(v, offset)\<close>, and \<open>writeFloatBE\<close> returns the offset behind
  the float, not the number of bytes: for the Opus packet below (one frame \<open>AA BB\<close>,
  position (1.0, 2.0, -1.5), to a server) \<open>offset\<close> goes from 5 to 14 to 32, the third
  write falls outside the 34 bytes of the Buffer and throws a RangeError, whatever the
  Buffer held before. No bytes are produced, and there is nothing to decode.
\<close>

theorem voice_encoder_throws_on_position:
  "voice_Encoder_transform memory Server
     (VoiceData \<lparr>vd_source = None, vd_mode = 0, vd_codec = ''Opus'', vd_seqNum = 5,
                 vd_end = False, vd_frames = [[0xAA, 0xBB]],
                 vd_position = Some (0x3F800000, 0x40000000, 0xBFC00000)\<rparr>)
     = Inl RangeError"
proof -
  define v where "v = \<lparr>vd_source = None, vd_mode = 0, vd_codec = ''Opus'', vd_seqNum = 5,
                        vd_end = False, vd_frames = [[0xAA, 0xBB]],
                        vd_position = Some (0x3F800000, 0x40000000, 0xBFC00000)\<rparr>"
  have vd: "opus_voiceData v = Inr [2, 0xAA, 0xBB]"
    unfolding v_def by code_simp
  have h: "js_or (js_shl 4 5) (vd_mode v) = 128"
    unfolding v_def by code_simp
  have seq: "toVarint_value (vd_seqNum v) = Inr [5]"
    unfolding v_def by code_simp
  have "encode_voice memory Server v 4 [2, 0xAA, 0xBB] = Inl RangeError"
    by (rule encode_voice_position_throws[where sb = "[]" and qb = "[5]"
          and p = "(0x3F800000, 0x40000000, 0xBFC00000)"])
       (simp_all add: h seq, simp add: v_def)
  then have "voice_Encoder_transform memory Server (VoiceData v) = Inl RangeError"
    using vd by (simp add: voice_Encoder_transform_def v_def)
  then show ?thesis by (simp only: v_def)
qed

section \<open>UDP crypto\<close>

subsection \<open>Blocks\<close>

lemma length_XOR_block [simp]: "length (XOR_block a b) = BLOCK_SIZE"
  by (simp add: XOR_block_def)

lemma bufAt_XOR_block: "i < BLOCK_SIZE \<Longrightarrow> bufAt (XOR_block a b) i = bufAt a i XOR bufAt b i"
  by (simp add: XOR_block_def bufAt_def)

lemma block_eqI:
  assumes "length a = BLOCK_SIZE" "length b = BLOCK_SIZE" "\<And>i. i < BLOCK_SIZE \<Longrightarrow> bufAt a i = bufAt b i"
  shows "a = b"
  using assms by (intro nth_equalityI) (auto simp: bufAt_def)

lemma XOR_block_cong:
  assumes "\<And>i. i < BLOCK_SIZE \<Longrightarrow> bufAt a i = bufAt a' i" "\<And>i. i < BLOCK_SIZE \<Longrightarrow> bufAt b i = bufAt b' i"
  shows "XOR_block a b = XOR_block a' b'"
  using assms by (simp add: XOR_block_def)

lemma XOR_block_cancel_left: "length x = BLOCK_SIZE \<Longrightarrow> XOR_block d (XOR_block d x) = x"
  by (rule block_eqI) (simp_all add: bufAt_XOR_block xor.assoc[symmetric])

lemma XOR_block_cancel_right: "length x = BLOCK_SIZE \<Longrightarrow> XOR_block (XOR_block x d) d = x"
  by (rule block_eqI) (simp_all add: bufAt_XOR_block xor.assoc)

lemma XOR_block_take_right: "XOR_block a (take BLOCK_SIZE b) = XOR_block a b"
  by (rule XOR_block_cong) (simp_all add: bufAt_take)

lemma XOR_block_append_right: "length b = BLOCK_SIZE \<Longrightarrow> XOR_block a (b @ c) = XOR_block a b"
  by (rule XOR_block_cong) (simp_all add: bufAt_append_left)

lemma length_S2 [simp]: "length (S2 b) = BLOCK_SIZE"
  by (simp add: S2_def Let_def)

lemma length_S3 [simp]: "length (S3 b) = BLOCK_SIZE"
  by (simp add: S3_def Let_def)

lemma XOR_block_full_take:
  assumes "length p > BLOCK_SIZE"
  shows "XOR_block d (XOR_block d (take BLOCK_SIZE p)) = take BLOCK_SIZE p"
  using assms by (intro XOR_block_cancel_left) simp

lemma ocb_final_roundtrip:
  assumes E: "\<forall>b. length b = BLOCK_SIZE \<longrightarrow> length (E b) = BLOCK_SIZE"
    and len: "length pt \<le> BLOCK_SIZE"
  shows "ocbDecrypt_final E (fst (ocbEncrypt_final E pt d ck)) d ck
           = (pt, snd (ocbEncrypt_final E pt d ck))"
    and "length (fst (ocbEncrypt_final E pt d ck)) = length pt"
    and "length (snd (ocbEncrypt_final E pt d ck)) = BLOCK_SIZE"
proof -
  define n where "n = length pt"
  define tmp1 where "tmp1 = XOR_block (ZERO[15 := toByte (int n * 8)]) (S2 d)"
  define pad where "pad = E tmp1"
  have lpad: "length pad = BLOCK_SIZE" using E by (simp add: pad_def tmp1_def)
  define tmp3 where "tmp3 = pt @ drop n pad"
  have ltmp3: "length tmp3 = BLOCK_SIZE" using len lpad by (simp add: tmp3_def n_def)
  have c1: "fst (buffer_copy pad (fst (buffer_copy pt tmp1 0 0 n)) n n BLOCK_SIZE) = tmp3"
    using len lpad by (simp add: buffer_copy_def tmp3_def n_def tmp1_def Let_def min_def)
  define ct where "ct = take n (XOR_block pad tmp3)"
  have lct: "length ct = n" using len by (simp add: ct_def n_def)
  have enc: "ocbEncrypt_final E pt d ck = (ct, E (XOR_block (S3 (S2 d)) (XOR_block ck tmp3)))"
    unfolding ocbEncrypt_final_def Let_def
    using c1 by (simp add: n_def[symmetric] tmp1_def[symmetric] pad_def[symmetric] ct_def)
  have c2: "fst (buffer_copy ct ZERO 0 0 n) = ct @ replicate (BLOCK_SIZE - n) 0"
    using len lct by (simp add: buffer_copy_def ZERO_def n_def Let_def min_def)
  have t3: "XOR_block (ct @ replicate (BLOCK_SIZE - n) 0) pad = tmp3"
  proof (rule block_eqI)
    fix i assume i: "i < BLOCK_SIZE"
    show "bufAt (XOR_block (ct @ replicate (BLOCK_SIZE - n) 0) pad) i = bufAt tmp3 i"
    proof (cases "i < n")
      case True
      then have "bufAt (ct @ replicate (BLOCK_SIZE - n) 0) i = bufAt pad i XOR bufAt tmp3 i"
        using lct i by (simp add: bufAt_append_left ct_def bufAt_take bufAt_XOR_block)
      then show ?thesis using i by (simp add: bufAt_XOR_block xor.commute xor.left_commute)
    next
      case False
      then have a: "bufAt (ct @ replicate (BLOCK_SIZE - n) 0) i = 0"
        using lct i by (simp add: bufAt_def nth_append)
      have "bufAt tmp3 i = bufAt pad i"
        using False i lpad len by (simp add: tmp3_def bufAt_def nth_append n_def)
      then show ?thesis using i a by (simp add: bufAt_XOR_block)
    qed
  qed (simp_all add: ltmp3)
  have "take n tmp3 = pt" by (simp add: tmp3_def n_def)
  then have dec: "ocbDecrypt_final E ct d ck = (pt, E (XOR_block (S3 (S2 d)) (XOR_block ck tmp3)))"
    unfolding ocbDecrypt_final_def Let_def
    using c2 t3 lct by (simp add: tmp1_def[symmetric] pad_def[symmetric])
  show "ocbDecrypt_final E (fst (ocbEncrypt_final E pt d ck)) d ck
           = (pt, snd (ocbEncrypt_final E pt d ck))"
    using enc dec by simp
  show "length (fst (ocbEncrypt_final E pt d ck)) = length pt"
    using enc lct by (simp add: n_def)
  show "length (snd (ocbEncrypt_final E pt d ck)) = BLOCK_SIZE"
    using enc E by simp
qed


lemma ocb_blocks_roundtrip:
  assumes E: "\<forall>b. length b = BLOCK_SIZE \<longrightarrow> length (E b) = BLOCK_SIZE \<and> D (E b) = b"
  shows "ocbDecrypt_blocks E D (fst (ocbEncrypt_blocks E pt d ck)) d ck
           = (pt, snd (ocbEncrypt_blocks E pt d ck))
         \<and> length (fst (ocbEncrypt_blocks E pt d ck)) = length pt
         \<and> length (snd (ocbEncrypt_blocks E pt d ck)) = BLOCK_SIZE"
  using E
proof (induction E pt d ck rule: ocbEncrypt_blocks.induct)
  case (1 E pt d ck)
  have E': "\<forall>b. length b = BLOCK_SIZE \<longrightarrow> length (E b) = BLOCK_SIZE" using "1.prems" by simp
  show ?case
  proof (cases "length pt > BLOCK_SIZE")
    case False
    then have e: "ocbEncrypt_blocks E pt d ck = ocbEncrypt_final E pt d ck"
      by (simp add: ocbEncrypt_blocks.simps)
    have l: "length (fst (ocbEncrypt_final E pt d ck)) = length pt"
      using ocb_final_roundtrip(2)[OF E'] False by simp
    then have "ocbDecrypt_blocks E D (fst (ocbEncrypt_final E pt d ck)) d ck
                 = ocbDecrypt_final E (fst (ocbEncrypt_final E pt d ck)) d ck"
      using False by (simp add: ocbDecrypt_blocks.simps)
    then show ?thesis
      using e l ocb_final_roundtrip(1)[OF E', of pt d ck]
        ocb_final_roundtrip(3)[OF E', of pt d ck] False by simp
  next
    case True
    define d1 where "d1 = S2 d"
    define x where "x = XOR_block d1 pt"
    define block where "block = XOR_block d1 (E x)"
    define ck1 where "ck1 = XOR_block ck pt"
    define rest where "rest = ocbEncrypt_blocks E (drop BLOCK_SIZE pt) d1 ck1"
    have e: "ocbEncrypt_blocks E pt d ck = (block @ fst rest, snd rest)"
      using True
      by (simp add: ocbEncrypt_blocks.simps[of E pt d ck] Let_def d1_def x_def block_def
          ck1_def rest_def)
    have IH: "ocbDecrypt_blocks E D (fst rest) d1 ck1 = (drop BLOCK_SIZE pt, snd rest)
              \<and> length (fst rest) = length (drop BLOCK_SIZE pt)
              \<and> length (snd rest) = BLOCK_SIZE"
      unfolding rest_def ck1_def x_def d1_def
      using "1.IH"[OF True refl refl refl refl "1.prems"] .
    have lx: "length x = BLOCK_SIZE" by (simp add: x_def)
    then have lEx: "length (E x) = BLOCK_SIZE" and DE: "D (E x) = x" using "1.prems" by auto
    have lb: "length block = BLOCK_SIZE" by (simp add: block_def)
    have long: "length (block @ fst rest) > BLOCK_SIZE" using IH True lb by simp
    have a: "XOR_block d1 (block @ fst rest) = E x"
      using lb lEx by (simp add: XOR_block_append_right block_def XOR_block_cancel_left)
    have "XOR_block d1 x = XOR_block d1 (XOR_block d1 (take BLOCK_SIZE pt))"
      by (simp add: x_def XOR_block_take_right)
    also have "\<dots> = take BLOCK_SIZE pt" using True by (rule XOR_block_full_take)
    finally have b: "XOR_block d1 x = take BLOCK_SIZE pt" .
    have c: "XOR_block ck (take BLOCK_SIZE pt) = ck1" by (simp add: ck1_def XOR_block_take_right)
    have "ocbDecrypt_blocks E D (block @ fst rest) d ck
            = (take BLOCK_SIZE pt @ fst (ocbDecrypt_blocks E D (fst rest) d1 ck1),
               snd (ocbDecrypt_blocks E D (fst rest) d1 ck1))"
      using long lb
      by (simp add: ocbDecrypt_blocks.simps[of E D "block @ fst rest" d ck] Let_def
          d1_def[symmetric] a DE b c)
    then show ?thesis using e IH lb True by simp
  qed
qed


lemma toByte_256 [simp]: "toByte 256 = 0"
  by (simp add: toByte_def)

lemma length_increment_iv [simp]: "length (increment_iv i iv) = length iv"
  by (induction i iv rule: increment_iv.induct)
     (subst increment_iv.simps, simp add: Let_def)

lemma bufAt_increment_iv: "j < i \<Longrightarrow> bufAt (increment_iv i iv) j = bufAt iv j"
proof (induction i iv rule: increment_iv.induct)
  case (1 i iv)
  show ?case
  proof (cases "i < BLOCK_SIZE \<and> uint (bufAt iv i) + 1 = 256")
    case True
    then have "increment_iv i iv = increment_iv (i + 1) (iv[i := 0])"
      by (subst increment_iv.simps) (simp add: Let_def)
    moreover have "bufAt (increment_iv (i + 1) (iv[i := 0])) j = bufAt (iv[i := 0]) j"
      using "1.IH" True "1.prems" by simp
    ultimately show ?thesis using "1.prems" by (simp add: bufAt_def)
  next
    case False
    then show ?thesis using "1.prems"
      by (subst increment_iv.simps) (auto simp add: Let_def bufAt_def)
  qed
qed

lemma fst_decrypt_carry: "fst (decrypt_carry i d e) = increment_iv i d"
  by (induction i d e rule: decrypt_carry.induct)
     (subst decrypt_carry.simps, subst increment_iv.simps, simp add: Let_def)

lemma decrypt_sync_in_order:
  assumes "length (decryptIV st) = BLOCK_SIZE"
  shows "\<exists>s. decrypt_sync st (uint (bufAt (increment_iv 0 (decryptIV st)) 0))
               = Continue s False 0 0
             \<and> decryptIV s = increment_iv 0 (decryptIV st) \<and> key s = key st
             \<and> decryptHistory s = decryptHistory st \<and> stats s = stats st"
proof -
  define d where "d = decryptIV st"
  define n0 where "n0 = uint (bufAt d 0)"
  have n0: "0 \<le> n0" "n0 < 256" using uint_bounded[of "bufAt d 0"] by (simp_all add: n0_def)
  have ld: "length d = BLOCK_SIZE" using assms by (simp add: d_def)
  show ?thesis
  proof (cases "n0 + 1 = 256")
    case False
    then have iv: "increment_iv 0 d = d[0 := toByte (n0 + 1)]"
      by (subst increment_iv.simps) (simp add: Let_def n0_def)
    have u: "uint (toByte (n0 + 1)) = n0 + 1"
      unfolding toByte_def uint_word_of_int using n0 False by simp
    have b: "uint (bufAt (increment_iv 0 d) 0) = n0 + 1"
      using ld u by (simp add: iv bufAt_def)
    have j: "js_and (n0 + 1) 0xFF = n0 + 1"
      using n0 False js_and_255[of "n0 + 1"] by simp
    show ?thesis
      unfolding d_def[symmetric] b
      by (simp add: decrypt_sync_def Let_def d_def[symmetric] n0_def[symmetric] j iv)
  next
    case True
    then have iv: "increment_iv 0 d = increment_iv 1 (d[0 := 0])"
      by (subst increment_iv.simps) (simp add: Let_def n0_def)
    have b: "uint (bufAt (increment_iv 0 d) 0) = 0"
      using ld by (simp add: iv bufAt_increment_iv) (simp add: bufAt_def)
    have j: "js_and 256 0xFF = 0"
      by (simp add: js_and_def toInt32_def)
    have n: "n0 = 255" using True by simp
    show ?thesis
      unfolding d_def[symmetric] b
      using fst_decrypt_carry[of 1 "d[0 := 0]" "encryptIV st"]
      by (simp add: decrypt_sync_def Let_def d_def[symmetric] n0_def[symmetric] j iv n
          toByte_def case_prod_beta)
  qed
qed



subsection \<open>Nonce synchronisation\<close>

lemma decrypt_sync_Null:
  assumes "decrypt_sync st ivbyte = Null s"
  shows "decryptIV s = decryptIV st \<and> decryptHistory s = decryptHistory st"
  using assms
  by (auto simp: decrypt_sync_def Let_def split: if_splits prod.splits sync.splits)

lemma decrypt_sync_Continue:
  assumes "decrypt_sync st ivbyte = Continue s restore late' lost'"
  shows "decryptHistory s = decryptHistory st"
  using assms
  by (auto simp: decrypt_sync_def Let_def split: if_splits prod.splits sync.splits)


text \<open>
  Claim C5. For a late packet from before a wraparound (\<open>ivbyte > decryptIV[0]\<close>,
  \<open>-30 < diff < 0\<close>) the nonce should be \<open>decryptIV\<close> with byte 0 set to \<open>ivbyte\<close> and
  one borrowed from the higher bytes. The borrow loop starts at index 0 and compares the
  old byte with -1, so it decrements byte 0 and stops: with \<open>decryptIV = 02 05 00 ..\<close>
  and \<open>ivbyte = FF\<close> the nonce used is \<open>FE 05 00 ..\<close>, not \<open>FF 04 00 ..\<close>.
\<close>

theorem late_wraparound_nonce:
  "decrypt_sync
     \<lparr>key = replicate 16 0, decryptIV = [2, 5, 0, 0, 0, 0, 0, 0, 0, 0, 0, 0, 0, 0, 0, 0],
      encryptIV = replicate 16 0, decryptHistory = (\<lambda>_. None),
      stats = \<lparr>good = 0, late = 0, lost = 0\<rparr>\<rparr> 0xFF
   = Continue
       \<lparr>key = replicate 16 0,
        decryptIV = [0xFE, 5, 0, 0, 0, 0, 0, 0, 0, 0, 0, 0, 0, 0, 0, 0],
        encryptIV = replicate 16 0, decryptHistory = (\<lambda>_. None),
        stats = \<lparr>good = 0, late = 0, lost = 0\<rparr>\<rparr> True 1 (- 1)"
  by (simp add: decrypt_sync_def decrypt_borrow.simps bufAt_def js_ops Let_def)

text \<open>
  Claim C10. \<open>decrypt\<close> should leave \<open>encryptIV\<close> alone. When the nonce byte wraps from
  \<open>FF\<close> to \<open>00\<close> and the carry runs through byte 1, the carry loop zeroes
  \<open>_encryptIV[1]\<close>; the packet below does so whatever the cipher is and whether or not
  its tag is accepted.
\<close>

theorem decrypt_overwrites_encryptIV:
  "encryptIV (fst (decrypt aes aesInverse
     \<lparr>key = replicate 16 0,
      decryptIV = [0xFF, 0xFF, 0, 0, 0, 0, 0, 0, 0, 0, 0, 0, 0, 0, 0, 0],
      encryptIV = [9, 9, 9, 9, 9, 9, 9, 9, 9, 9, 9, 9, 9, 9, 9, 9],
      decryptHistory = (\<lambda>_. None), stats = \<lparr>good = 0, late = 0, lost = 0\<rparr>\<rparr>
     [0, 0, 0, 0]))
   = [9, 0, 9, 9, 9, 9, 9, 9, 9, 9, 9, 9, 9, 9, 9, 9]"
  by (simp add: decrypt_def decrypt_sync_def decrypt_carry.simps bufAt_def js_ops Let_def
      split: prod.splits)

text \<open>
  Claim C4. After a call of \<open>decrypt\<close> that fails (it returns \<open>null\<close>: short input,
  nonce out of range, replay, or a tag that does not match), \<open>decryptIV\<close> holds its value
  from before the call and \<open>decryptHistory\<close> is unchanged.
\<close>

theorem decrypt_failure_atomic:
  assumes "snd (decrypt aes aesInverse st cipherText) = None"
  shows "decryptIV (fst (decrypt aes aesInverse st cipherText)) = decryptIV st
         \<and> decryptHistory (fst (decrypt aes aesInverse st cipherText)) = decryptHistory st"
proof (cases "length cipherText < 4")
  case True
  then show ?thesis by (simp add: decrypt_def)
next
  case False
  show ?thesis
  proof (cases "decrypt_sync st (uint (bufAt cipherText 0))")
    case (Null s)
    then show ?thesis using False decrypt_sync_Null[OF Null]
      by (simp add: decrypt_def Let_def)
  next
    case (Continue s restore late' lost')
    then show ?thesis using False assms decrypt_sync_Continue[OF Continue]
      by (simp add: decrypt_def Let_def split: prod.splits if_splits)
  qed
qed

theorem decrypt_failure_atomic_witness:
  "snd (decrypt xor_cipher xor_cipher example_receiver [0, 0, 0, 0, 0x42]) = None
   \<and> decryptIV (fst (decrypt xor_cipher xor_cipher example_receiver [0, 0, 0, 0, 0x42]))
       = [0xFF, 0xFF, 3, 0, 0, 0, 0, 0, 0, 0, 0, 0, 0, 0, 0, 0]
   \<and> decryptHistory (fst (decrypt xor_cipher xor_cipher example_receiver [0, 0, 0, 0, 0x42]))
       = (\<lambda>b. None)"
proof -
  have h: "snd (decrypt xor_cipher xor_cipher example_receiver [0, 0, 0, 0, 0x42]) = None"
    by code_simp
  show ?thesis using h decrypt_failure_atomic [OF h] by (simp add: example_receiver_def)
qed

text \<open>
  Claim C1. A receiver with the sender's key, whose \<open>decryptIV\<close> equals the sender's
  \<open>encryptIV\<close> before the call, decrypts what the sender encrypts to the plain text, and
  afterwards its \<open>decryptIV\<close> equals the sender's \<open>encryptIV\<close>. The block cipher is any
  pair of functions of which the second inverts the first on blocks, as AES-128-ECB
  decryption inverts encryption. The two states are values of their own: sender and
  receiver hold equal bytes, not one shared Buffer.
\<close>

theorem crypt_roundtrip:
  assumes aes: "\<forall>b. length b = BLOCK_SIZE \<longrightarrow>
                  length (aes (key S) b) = BLOCK_SIZE \<and> aesInverse (key S) (aes (key S) b) = b"
    and S: "ready S" and S': "ready S'"
    and k: "key S' = key S" and iv: "decryptIV S' = encryptIV S"
  shows "snd (decrypt aes aesInverse S' (snd (encrypt aes S P))) = Some P
         \<and> decryptIV (fst (decrypt aes aesInverse S' (snd (encrypt aes S P))))
             = encryptIV (fst (encrypt aes S P))"
proof -
  define nonce where "nonce = increment_iv 0 (encryptIV S)"
  define E where "E = aes (key S)"
  define D where "D = aesInverse (key S)"
  define body where "body = fst (ocbEncrypt E P nonce)"
  define tag where "tag = snd (ocbEncrypt E P nonce)"
  define c where "c = [bufAt nonce 0, bufAt tag 0, bufAt tag 1, bufAt tag 2] @ body"
  have ED: "\<forall>b. length b = BLOCK_SIZE \<longrightarrow> length (E b) = BLOCK_SIZE \<and> D (E b) = b"
    using aes by (simp add: E_def D_def)
  have enc: "encrypt aes S P = (S\<lparr>encryptIV := nonce\<rparr>, c)"
    by (simp add: encrypt_def Let_def case_prod_beta nonce_def E_def body_def tag_def c_def)
  have rt: "ocbDecrypt E D body nonce = (P, tag)" and ltag: "length tag = BLOCK_SIZE"
    using ocb_blocks_roundtrip[OF ED, of P "E nonce" ZERO]
    by (simp_all add: ocbDecrypt_def ocbEncrypt_def body_def tag_def)
  have t3: "take 3 tag = take 3 (drop 1 c)"
    using ltag by (simp add: c_def bufAt_def take_Suc_conv_app_nth numeral_3_eq_3 numeral_2_eq_2)
  have ld: "length (decryptIV S') = BLOCK_SIZE" using S' by (simp add: ready_def)
  obtain s where sync: "decrypt_sync S' (uint (bufAt nonce 0)) = Continue s False 0 0"
    and s: "decryptIV s = nonce" "key s = key S"
    using decrypt_sync_in_order[OF ld] by (auto simp: nonce_def iv k)
  have c: "\<not> length c < 4" "bufAt c 0 = bufAt nonce 0" "drop 4 c = body"
    by (simp_all add: c_def bufAt_def)
  have "decrypt aes aesInverse S' c
          = (s\<lparr>decryptHistory := (decryptHistory s)(bufAt nonce 0 := Some (bufAt nonce 1)),
               stats := \<lparr>good = good (stats s) + 1, late = late (stats s),
                          lost = lost (stats s)\<rparr>\<rparr>, Some P)"
    by (simp add: decrypt_def Let_def c sync rt[unfolded E_def D_def] t3 s)
  then show ?thesis using enc s by simp
qed

theorem crypt_roundtrip_witness:
  "ready example_sender \<and> ready example_receiver
   \<and> key example_receiver = key example_sender
   \<and> decryptIV example_receiver = encryptIV example_sender
   \<and> snd (decrypt xor_cipher xor_cipher example_receiver
            (snd (encrypt xor_cipher example_sender [0x48, 0x65, 0x6C, 0x6C, 0x6F])))
       = Some [0x48, 0x65, 0x6C, 0x6C, 0x6F]
   \<and> decryptIV (fst (decrypt xor_cipher xor_cipher example_receiver
                      (snd (encrypt xor_cipher example_sender [0x48, 0x65, 0x6C, 0x6C, 0x6F]))))
       = encryptIV (fst (encrypt xor_cipher example_sender [0x48, 0x65, 0x6C, 0x6C, 0x6F]))"
proof -
  have aes: "\<forall>b. length b = BLOCK_SIZE \<longrightarrow>
               length (xor_cipher (key example_sender) b) = BLOCK_SIZE
               \<and> xor_cipher (key example_sender) (xor_cipher (key example_sender) b) = b"
    by (simp add: xor_cipher_def XOR_block_cancel_right)
  have r: "ready example_sender" "ready example_receiver"
    "key example_receiver = key example_sender"
    "decryptIV example_receiver = encryptIV example_sender"
    by (simp_all add: ready_def example_sender_def example_receiver_def)
  show ?thesis
    using r crypt_roundtrip [where aes = xor_cipher and aesInverse = xor_cipher
          and S = example_sender and S' = example_receiver
          and P = "[0x48, 0x65, 0x6C, 0x6C, 0x6F]", OF aes r]
    by simp
qed

section \<open>Control messages\<close>

subsection \<open>The decoder's buffer\<close>

lemma read_pending:
  assumes "Decoder_inv st" "6 \<le> dec_bufferSize st"
  shows "readUInt16BE (dec_buffer st) 0 = readUInt16BE (pending st) 0"
    and "readUInt32BE (dec_buffer st) 2 = readUInt32BE (pending st) 2"
  using assms by (simp_all add: readUInt16BE_def readUInt32BE_def pending_def bufAt_take)

lemma length_pending: "Decoder_inv st \<Longrightarrow> length (pending st) = dec_bufferSize st"
  by (simp add: pending_def Decoder_inv_def)

lemma Decoder_append_pending:
  assumes "Decoder_inv st"
  shows "pending (Decoder_append st chunk) = pending st @ chunk"
    and "Decoder_inv (Decoder_append st chunk)"
  using assms
  by (auto simp: Decoder_append_def pending_def Decoder_inv_def buffer_copy_def Let_def min_def)

lemma Decoder_shift:
  assumes "Decoder_inv st" "k \<le> dec_bufferSize st"
  shows "pending \<lparr>dec_buffer = fst (buffer_copy (dec_buffer st) (dec_buffer st) 0 k
                                     (dec_bufferSize st)),
                  dec_bufferSize = dec_bufferSize st - k\<rparr> = drop k (pending st)"
    and "Decoder_inv \<lparr>dec_buffer = fst (buffer_copy (dec_buffer st) (dec_buffer st) 0 k
                                         (dec_bufferSize st)),
                      dec_bufferSize = dec_bufferSize st - k\<rparr>"
  using assms
  by (auto simp: pending_def Decoder_inv_def buffer_copy_def Let_def min_def drop_take)

lemma Decoder_drain_stream:
  assumes "Decoder_inv st"
  shows "Decoder_inv (fst (Decoder_drain sd st))
         \<and> (pending (fst (Decoder_drain sd st)), snd (Decoder_drain sd st))
             = stream_frames sd (pending st)"
  using assms
proof (induction sd st rule: Decoder_drain.induct)
  case (1 sd st)
  note inv = "1.prems"
  have lp: "length (pending st) = dec_bufferSize st" using inv by (rule length_pending)
  show ?case
  proof (cases "6 \<le> dec_bufferSize st")
    case False
    then show ?thesis using inv lp
      by (simp add: Decoder_drain.simps[of sd st] stream_frames.simps[of sd "pending st"])
  next
    case True
    define type where "type = readUInt16BE (dec_buffer st) 0"
    define size where "size = readUInt32BE (dec_buffer st) 2"
    have rd: "readUInt16BE (pending st) 0 = type" "readUInt32BE (pending st) 2 = size"
      using read_pending[OF inv True] by (simp_all add: type_def size_def)
    show ?thesis
    proof (cases "dec_bufferSize st < 6 + size")
      case short: True
      then show ?thesis using True inv lp rd
        by (simp add: Decoder_drain.simps[of sd st] stream_frames.simps[of sd "pending st"]
            type_def[symmetric] size_def[symmetric] Let_def)
    next
      case long: False
      have data: "take size (drop 6 (pending st)) = take size (drop 6 (dec_buffer st))"
        using long by (simp add: pending_def drop_take min_def)
      show ?thesis
      proof (cases "decode_message sd type (take size (drop 6 (dec_buffer st)))")
        case (Inl e)
        then show ?thesis using True long inv lp rd data
          by (simp add: Decoder_drain.simps[of sd st] stream_frames.simps[of sd "pending st"]
              type_def[symmetric] size_def[symmetric] Let_def)
      next
        case (Inr m)
        define st1 where "st1 = \<lparr>dec_buffer = fst (buffer_copy (dec_buffer st) (dec_buffer st) 0
                                                   (6 + size) (dec_bufferSize st)),
                               dec_bufferSize = dec_bufferSize st - (6 + size)\<rparr>"
        have k: "6 + size \<le> dec_bufferSize st" using long by simp
        have p1: "pending st1 = drop (6 + size) (pending st)" and i1: "Decoder_inv st1"
          unfolding st1_def using Decoder_shift[OF inv k] by simp_all
        have IH: "Decoder_inv (fst (Decoder_drain sd st1))
                  \<and> (pending (fst (Decoder_drain sd st1)), snd (Decoder_drain sd st1))
                      = stream_frames sd (pending st1)"
          using "1.IH"[OF True type_def size_def long refl Inr st1_def i1] .
        have d: "Decoder_drain sd st
                  = (fst (Decoder_drain sd st1), m # fst (snd (Decoder_drain sd st1)),
                     snd (snd (Decoder_drain sd st1)))"
          using True long Inr
          by (simp add: Decoder_drain.simps[of sd st] type_def[symmetric] size_def[symmetric]
              Let_def st1_def[symmetric])
        have s: "stream_frames sd (pending st)
                  = (fst (stream_frames sd (pending st1)),
                     m # fst (snd (stream_frames sd (pending st1))),
                     snd (snd (stream_frames sd (pending st1))))"
          using True long Inr lp rd data
          by (simp add: stream_frames.simps[of sd "pending st"] Let_def p1)
        show ?thesis using IH by (simp add: d s) (metis fst_conv snd_conv prod.collapse)
      qed
    qed
  qed
qed


lemma unat_byte_of_nat: "unat (of_nat n :: byte) = n mod 256"
  by (simp add: unat_of_nat)

lemma split16:
  fixes n :: nat
  assumes "n < 65536"
  shows "n div 256 mod 256 * 256 + n mod 256 = n"
proof -
  have "n div 256 < 256" using assms by simp
  then show ?thesis by simp
qed

lemma split32:
  fixes n :: nat
  assumes "n < 4294967296"
  shows "n div 16777216 mod 256 * 16777216 + n div 65536 mod 256 * 65536
           + n div 256 mod 256 * 256 + n mod 256 = n"
    and "n div 16777216 * 16777216 + n div 65536 mod 256 * 65536
           + n div 256 mod 256 * 256 + n mod 256 = n"
proof -
  define a where "a = n div 256"
  define b where "b = a div 256"
  define x where "x = b div 256"
  define y where "y = b mod 256"
  define z where "z = a mod 256"
  define w where "w = n mod 256"
  have b2: "n div 65536 = b" unfolding b_def a_def by (simp add: div_mult2_eq[symmetric])
  have c: "n div 16777216 = x" unfolding x_def b_def a_def
    by (simp add: div_mult2_eq[symmetric])
  have "x < 256" using assms unfolding c[symmetric] by simp
  then have xm: "x mod 256 = x" by simp
  have 1: "n = a * 256 + w" by (simp add: a_def w_def)
  have 2: "a = b * 256 + z" by (simp add: b_def z_def)
  have 3: "b = x * 256 + y" by (simp add: x_def y_def)
  have e: "x * 16777216 + y * 65536 + z * 256 + w = n"
    unfolding 1 2 3 by simp
  show "n div 16777216 mod 256 * 16777216 + n div 65536 mod 256 * 65536
           + n div 256 mod 256 * 256 + n mod 256 = n"
    unfolding b2 c xm a_def[symmetric] y_def[symmetric] z_def[symmetric] w_def[symmetric]
    by (rule e)
  show "n div 16777216 * 16777216 + n div 65536 mod 256 * 65536
           + n div 256 mod 256 * 256 + n mod 256 = n"
    unfolding b2 c a_def[symmetric] y_def[symmetric] z_def[symmetric] w_def[symmetric]
    by (rule e)
qed

lemma frame_header:
  assumes "t < 65536" "length d < 4294967296"
  shows "readUInt16BE (frame_bytes t d @ rest) 0 = t"
    and "readUInt32BE (frame_bytes t d @ rest) 2 = length d"
proof -
  have n: "(2::nat) = Suc (Suc 0)" "(3::nat) = Suc (Suc (Suc 0))"
    "(4::nat) = Suc (Suc (Suc (Suc 0)))" "(5::nat) = Suc (Suc (Suc (Suc (Suc 0))))"
    by simp_all
  show "readUInt16BE (frame_bytes t d @ rest) 0 = t"
    using split16[OF assms(1)]
    by (simp add: frame_bytes_def writeUInt16BE_def writeUInt32BE_def readUInt16BE_def
        unat_byte_of_nat)
  show "readUInt32BE (frame_bytes t d @ rest) 2 = length d"
    using split32[OF assms(2)]
    by (simp add: frame_bytes_def writeUInt16BE_def writeUInt32BE_def readUInt32BE_def
        unat_byte_of_nat n)
qed

lemma length_frame_bytes [simp]: "length (frame_bytes t d) = 6 + length d"
  by (simp add: frame_bytes_def writeUInt16BE_def writeUInt32BE_def)


lemma read_append:
  assumes "6 \<le> length b"
  shows "readUInt16BE (b @ c) 0 = readUInt16BE b 0"
    and "readUInt32BE (b @ c) 2 = readUInt32BE b 2"
  using assms by (auto simp: readUInt16BE_def readUInt32BE_def bufAt_def nth_append)

lemma stream_frames_short:
  assumes "length b < 6 \<or> length b < 6 + readUInt32BE b 2"
  shows "stream_frames sd b = (b, [], None)"
  using assms by (auto simp: stream_frames.simps[of sd b] Let_def)

lemma stream_frames_frame:
  assumes "6 \<le> length b" "6 + readUInt32BE b 2 \<le> length b"
    and "decode_message sd (readUInt16BE b 0) (take (readUInt32BE b 2) (drop 6 b)) = Inr m"
  shows "stream_frames sd b
           = (fst (stream_frames sd (drop (6 + readUInt32BE b 2) b)),
              m # fst (snd (stream_frames sd (drop (6 + readUInt32BE b 2) b))),
              snd (snd (stream_frames sd (drop (6 + readUInt32BE b 2) b))))"
  using assms by (simp add: stream_frames.simps[of sd b] Let_def)

lemma stream_frames_error:
  assumes "6 \<le> length b" "6 + readUInt32BE b 2 \<le> length b"
    and "decode_message sd (readUInt16BE b 0) (take (readUInt32BE b 2) (drop 6 b)) = Inl e"
  shows "stream_frames sd b = (b, [], Some e)"
  using assms by (simp add: stream_frames.simps[of sd b] Let_def)

lemma stream_frames_append:
  "stream_frames sd (b @ c) =
     (case stream_frames sd b of
        (r, ms, Some e) \<Rightarrow> (r @ c, ms, Some e)
      | (r, ms, None) \<Rightarrow>
          (case stream_frames sd (r @ c) of (r', ms', e') \<Rightarrow> (r', ms @ ms', e')))"
proof (induction sd b rule: stream_frames.induct)
  case (1 sd b)
  show ?case
  proof (cases "length b < 6 \<or> length b < 6 + readUInt32BE b 2")
    case True
    then show ?thesis by (simp add: stream_frames_short split: prod.splits)
  next
    case False
    then have l: "6 \<le> length b" "6 + readUInt32BE b 2 \<le> length b" by simp_all
    define type where "type = readUInt16BE b 0"
    define size where "size = readUInt32BE b 2"
    have l': "6 \<le> length (b @ c)" "6 + readUInt32BE (b @ c) 2 \<le> length (b @ c)"
      using l by (simp_all add: read_append)
    have data: "take (readUInt32BE (b @ c) 2) (drop 6 (b @ c)) = take size (drop 6 b)"
      using l by (simp add: read_append size_def)
    show ?thesis
    proof (cases "decode_message sd type (take size (drop 6 b))")
      case (Inl e)
      then have "stream_frames sd b = (b, [], Some e)"
        using l by (intro stream_frames_error) (simp_all add: type_def size_def)
      moreover have "stream_frames sd (b @ c) = (b @ c, [], Some e)"
        using l' Inl data l(1) by (intro stream_frames_error) (simp_all add: read_append type_def)
      ultimately show ?thesis by simp
    next
      case (Inr m)
      have sb: "stream_frames sd b
                 = (fst (stream_frames sd (drop (6 + size) b)),
                    m # fst (snd (stream_frames sd (drop (6 + size) b))),
                    snd (snd (stream_frames sd (drop (6 + size) b))))"
        using stream_frames_frame[OF l, of sd m] Inr by (simp add: type_def size_def)
      have "decode_message sd (readUInt16BE (b @ c) 0)
              (take (readUInt32BE (b @ c) 2) (drop 6 (b @ c))) = Inr m"
        using Inr data l(1) by (simp add: read_append type_def)
      from stream_frames_frame[OF l' this]
      have sbc: "stream_frames sd (b @ c)
                 = (fst (stream_frames sd (drop (6 + size) b @ c)),
                    m # fst (snd (stream_frames sd (drop (6 + size) b @ c))),
                    snd (snd (stream_frames sd (drop (6 + size) b @ c))))"
        using l by (simp add: read_append size_def)
      have IH: "stream_frames sd (drop (6 + size) b @ c) =
         (case stream_frames sd (drop (6 + size) b) of
            (r, ms, Some e) \<Rightarrow> (r @ c, ms, Some e)
          | (r, ms, None) \<Rightarrow>
              (case stream_frames sd (r @ c) of (r', ms', e') \<Rightarrow> (r', ms @ ms', e')))"
        using "1.IH"[OF l(1) type_def size_def _ Inr] l(2) by (simp add: size_def)
      show ?thesis
        unfolding sb sbc IH by (simp split: prod.splits option.splits)
    qed
  qed
qed

lemma stream_frames_idem:
  "snd (snd (stream_frames sd b)) = None \<Longrightarrow>
     stream_frames sd (fst (stream_frames sd b)) = (fst (stream_frames sd b), [], None)"
proof (induction sd b rule: stream_frames.induct)
  case (1 sd b)
  show ?case
  proof (cases "length b < 6 \<or> length b < 6 + readUInt32BE b 2")
    case True
    then show ?thesis by (simp add: stream_frames_short)
  next
    case False
    then have l: "6 \<le> length b" "6 + readUInt32BE b 2 \<le> length b" by simp_all
    define type where "type = readUInt16BE b 0"
    define size where "size = readUInt32BE b 2"
    show ?thesis
    proof (cases "decode_message sd type (take size (drop 6 b))")
      case (Inl e)
      then have "stream_frames sd b = (b, [], Some e)"
        using l by (intro stream_frames_error) (simp_all add: type_def size_def)
      then show ?thesis using "1.prems" by simp
    next
      case (Inr m)
      have sb: "stream_frames sd b
                 = (fst (stream_frames sd (drop (6 + size) b)),
                    m # fst (snd (stream_frames sd (drop (6 + size) b))),
                    snd (snd (stream_frames sd (drop (6 + size) b))))"
        using stream_frames_frame[OF l, of sd m] Inr by (simp add: type_def size_def)
      then have "snd (snd (stream_frames sd (drop (6 + size) b))) = None"
        using "1.prems" by simp
      then have "stream_frames sd (fst (stream_frames sd (drop (6 + size) b)))
                 = (fst (stream_frames sd (drop (6 + size) b)), [], None)"
        using "1.IH"[OF l(1) type_def size_def _ Inr] l(2) by (simp add: size_def)
      then show ?thesis by (simp add: sb)
    qed
  qed
qed


lemma decode_message_type:
  assumes "decode_message sd t d = Inr m"
  shows "t < 65536"
proof -
  have "nameById t \<noteq> None"
    using assms
    by (auto simp: decode_message_def data_decode_def split: if_splits option.splits sum.splits)
  then have "t < length message_names" by (simp add: nameById_def split: if_splits)
  then show ?thesis by (simp add: message_names_def)
qed

lemma stream_frames_partial:
  assumes "strict_prefix p (frame_bytes t d)" "t < 65536" "length d < 4294967296"
  shows "stream_frames sd p = (p, [], None)"
proof (cases "length p < 6")
  case True
  then show ?thesis by (simp add: stream_frames_short)
next
  case False
  obtain q where q: "frame_bytes t d = p @ q" "q \<noteq> []"
    using assms(1) by (auto simp: strict_prefix_def prefix_def)
  have "readUInt32BE p 2 = readUInt32BE (p @ q) 2" using False by (simp add: read_append)
  also have "\<dots> = length d"
    using frame_header(2)[OF assms(2,3), of "[]"] q by simp
  finally have "readUInt32BE p 2 = length d" .
  moreover have "length p < 6 + length d"
  proof -
    have "0 < length q" using q(2) by simp
    moreover have "length p + length q = 6 + length d"
      using length_frame_bytes[of t d] by (simp add: q(1))
    ultimately show ?thesis by linarith
  qed
  ultimately show ?thesis by (simp add: stream_frames_short)
qed

lemma stream_frames_whole:
  assumes "list_all2 (\<lambda>f m. length (snd f) < 4294967296
                              \<and> decode_message sd (fst f) (snd f) = Inr m) frames msgs"
    and "strict_prefix p (frame_bytes t d)" "t < 65536" "length d < 4294967296"
  shows "stream_frames sd (concat (map (\<lambda>f. frame_bytes (fst f) (snd f)) frames) @ p)
           = (p, msgs, None)"
  using assms(1)
proof (induction rule: list_all2_induct)
  case Nil
  show ?case using stream_frames_partial[OF assms(2,3,4)] by simp
next
  case (Cons f fs m ms)
  define rest where "rest = concat (map (\<lambda>f. frame_bytes (fst f) (snd f)) fs) @ p"
  define b where "b = frame_bytes (fst f) (snd f) @ rest"
  have t: "fst f < 65536" using Cons.hyps(1) decode_message_type by blast
  have l: "length (snd f) < 4294967296" using Cons.hyps(1) by simp
  have h: "readUInt16BE b 0 = fst f" "readUInt32BE b 2 = length (snd f)"
    using frame_header[OF t l, of rest] by (simp_all add: b_def)
  have lb: "6 \<le> length b" "6 + readUInt32BE b 2 \<le> length b"
    by (simp_all add: h) (simp_all add: b_def)
  have data: "take (readUInt32BE b 2) (drop 6 b) = snd f"
    by (simp add: h) (simp add: b_def frame_bytes_def writeUInt16BE_def writeUInt32BE_def)
  have dr: "drop (6 + readUInt32BE b 2) b = rest"
    by (simp add: h) (simp add: b_def)
  have "decode_message sd (readUInt16BE b 0) (take (readUInt32BE b 2) (drop 6 b)) = Inr m"
    using Cons.hyps(1) unfolding data h(1) by simp
  from stream_frames_frame[OF lb this]
  have "stream_frames sd b = (p, m # ms, None)"
    using Cons.IH by (simp add: dr rest_def)
  then show ?case by (simp add: b_def rest_def)
qed

lemma Decoder_write_all_stream:
  assumes "Decoder_inv st"
    and "stream_frames sd (pending st) = (pending st, [], None)"
    and "stream_frames sd (pending st @ concat chunks) = (r, ms, None)"
  shows "\<exists>st'. Decoder_write_all sd st chunks = (st', ms, None) \<and> pending st' = r
               \<and> Decoder_inv st'"
  using assms
proof (induction chunks arbitrary: st ms)
  case Nil
  then show ?case by simp
next
  case (Cons c cs)
  define st1 where "st1 = Decoder_append st c"
  have p1: "pending st1 = pending st @ c" and i1: "Decoder_inv st1"
    using Decoder_append_pending[OF Cons.prems(1), of c] by (simp_all add: st1_def)
  obtain r1 ms1 e1 where s1: "stream_frames sd (pending st @ c) = (r1, ms1, e1)"
    by (cases "stream_frames sd (pending st @ c)") auto
  have ap: "stream_frames sd ((pending st @ c) @ concat cs) = (r, ms, None)"
    using Cons.prems(3) by simp
  have e1: "e1 = None"
    using ap unfolding stream_frames_append[of sd "pending st @ c" "concat cs"] s1
    by (cases e1) auto
  obtain ms2 where s2: "stream_frames sd (r1 @ concat cs) = (r, ms2, None)"
    and ms: "ms = ms1 @ ms2"
    using ap unfolding stream_frames_append[of sd "pending st @ c" "concat cs"] s1 e1
    by (auto split: prod.splits)
  define st2 where "st2 = fst (Decoder_drain sd st1)"
  have d: "Decoder_inv st2" "pending st2 = r1" "snd (Decoder_drain sd st1) = (ms1, None)"
    using Decoder_drain_stream[OF i1, of sd] s1 e1 by (simp_all add: st2_def p1)
  have tr: "data_Decoder_transform sd st c = (st2, ms1, None)"
    using d(3) by (simp add: data_Decoder_transform_def st1_def[symmetric] st2_def
        prod_eq_iff)
  have stable: "stream_frames sd (pending st2) = (pending st2, [], None)"
    using stream_frames_idem[of sd "pending st @ c"] s1 e1 d(2) by simp
  obtain st' where w: "Decoder_write_all sd st2 cs = (st', ms2, None)" "pending st' = r"
    "Decoder_inv st'"
    using Cons.IH[OF d(1) stable, of ms2] s2 d(2) by auto
  show ?case using tr w ms by simp
qed


text \<open>
  Claim C8. Take any sequence of well-formed frames (each payload shorter than \<open>2^32\<close>
  bytes and decoded to its message by \<open>decode_message\<close>), followed by any strict prefix
  of one more frame, and cut these bytes into chunks in any way. Written into a new
  decoder, the chunks make it push exactly the messages of the whole frames, in frame
  order and without an error, and the bytes of the unfinished frame stay in its buffer:
  no message is pushed for a frame before all \<open>6 + size\<close> bytes of it have arrived.
\<close>

theorem control_decoder_chunking:
  assumes frames: "list_all2 (\<lambda>f m. length (snd f) < 4294967296
                              \<and> decode_message schema_decode (fst f) (snd f) = Inr m)
                     frames msgs"
    and partial: "strict_prefix partial (frame_bytes t d)" "t < 65536"
      "length d < 4294967296"
    and chunks: "concat chunks = concat (map (\<lambda>f. frame_bytes (fst f) (snd f)) frames) @ partial"
  shows "\<exists>st'. Decoder_write_all schema_decode (Decoder_new memory) chunks = (st', msgs, None)
               \<and> take (dec_bufferSize st') (dec_buffer st') = partial"
proof -
  have i: "Decoder_inv (Decoder_new memory)" and p: "pending (Decoder_new memory) = []"
    by (simp_all add: Decoder_inv_def Decoder_new_def pending_def)
  have s0: "stream_frames schema_decode (pending (Decoder_new memory))
              = (pending (Decoder_new memory), [], None)"
    by (simp add: p stream_frames_short)
  have "stream_frames schema_decode (pending (Decoder_new memory) @ concat chunks)
          = (partial, msgs, None)"
    using stream_frames_whole[OF frames partial] by (simp add: p chunks)
  from Decoder_write_all_stream[OF i s0 this]
  show ?thesis by (auto simp: pending_def)
qed

theorem control_decoder_chunking_witness:
  "\<exists>st'. Decoder_write_all example_schema (Decoder_new (replicate 1024 0))
            [[0, 3, 0], [0, 0, 8, 0, 1, 2, 3], [4, 5, 6, 7, 0, 1, 0, 0, 0, 2, 9], [9, 0, 3]]
          = (st', [\<lparr>msg_name = ''Ping'', msg_payload = Object [0, 1, 2, 3, 4, 5, 6, 7]\<rparr>,
                   \<lparr>msg_name = ''UDPTunnel'', msg_payload = Bytes [9, 9]\<rparr>], None)
        \<and> take (dec_bufferSize st') (dec_buffer st') = [0, 3]"
proof -
  have frames: "list_all2 (\<lambda>f m. length (snd f) < 4294967296
                              \<and> decode_message example_schema (fst f) (snd f) = Inr m)
                  [(3, [0, 1, 2, 3, 4, 5, 6, 7]), (1, [9, 9])]
                  [\<lparr>msg_name = ''Ping'', msg_payload = Object [0, 1, 2, 3, 4, 5, 6, 7]\<rparr>,
                   \<lparr>msg_name = ''UDPTunnel'', msg_payload = Bytes [9, 9]\<rparr>]"
    by (simp add: decode_message_def data_decode_def nameById_def message_names_def
        example_schema_def)
  have partial: "strict_prefix [0, 3] (frame_bytes 3 [])" "(3::nat) < 65536"
    "length ([] :: buffer) < 4294967296"
    by (simp_all add: frame_bytes_def writeUInt16BE_def writeUInt32BE_def)
  have chunks: "concat [[0, 3, 0], [0, 0, 8, 0, 1, 2, 3], [4, 5, 6, 7, 0, 1, 0, 0, 0, 2, 9],
                        [9, 0, 3 :: byte]]
                = concat (map (\<lambda>f. frame_bytes (fst f) (snd f))
                            [(3, [0, 1, 2, 3, 4, 5, 6, 7]), (1, [9, 9])]) @ [0, 3]"
    by (simp add: frame_bytes_def writeUInt16BE_def writeUInt32BE_def)
  show ?thesis
    using control_decoder_chunking [OF frames partial chunks, of "replicate 1024 0"] .
qed

end
